theory Spec2Isabelle
  imports Main "HOL-Library.AList" "HOL-Library.Char_ord" "HOL-Library.List_Lexorder"
begin

section \<open>JavaScript values\<close>

text \<open>
  The values a caller can hand to the constructor of
  \<^verbatim>\<open>src/uca/UserCollectableAttribute.js\<close>. Numbers are the integer-valued ones;
  \<^verbatim>\<open>toString\<close> renders those below \<^verbatim>\<open>1e21\<close> in magnitude as plain decimals,
  and the model renders every integer so. An object is a plain one, whose prototype
  is \<^verbatim>\<open>Object.prototype\<close>: it lists its own properties in iteration order, each
  key once. Arrays and functions are not among the values.
\<close>

datatype jsval =
    JUndefined
  | JNull
  | JBool bool
  | JNum int
  | JStr string
  | JObj "(string \<times> jsval) list"

text \<open>
  The exceptions of the module. The source throws \<^verbatim>\<open>Error\<close> with four different
  messages; the constructors are named after the failure each message reports:
  \<^verbatim>\<open>`${identifier} is not defined`\<close>, \<^verbatim>\<open>`... is not valid for ${identifier}`\<close>,
  \<^verbatim>\<open>`Missing required fields to ${identifier}`\<close> and \<^verbatim>\<open>'Invalid attestableValue'\<close>.
  \<open>TypeError\<close> is what the engine raises when a property of \<^verbatim>\<open>undefined\<close> or
  \<^verbatim>\<open>null\<close> is read or a non-function is called, \<open>RangeError\<close> what it raises when
  the recursion of the type resolver never ends.
\<close>

datatype error =
    UnknownIdentifier string
  | InvalidValue string
  | MissingRequiredField string
  | MalformedCommitment
  | TypeError
  | RangeError

fun truthy :: "jsval \<Rightarrow> bool" where
  "truthy JUndefined = False"
| "truthy JNull = False"
| "truthy (JBool b) = b"
| "truthy (JNum n) = (n \<noteq> 0)"
| "truthy (JStr s) = (s \<noteq> [])"
| "truthy (JObj kvs) = True"

text \<open>
  An own property of a value that is neither \<^verbatim>\<open>null\<close> nor \<^verbatim>\<open>undefined\<close>. The
  module reads \<^verbatim>\<open>value.attestableValue\<close> (lines 76 and 81), a name that no
  prototype of the engine provides, so for it the own property is all there is.
\<close>

fun getProp :: "jsval \<Rightarrow> string \<Rightarrow> jsval" where
  "getProp (JObj kvs) key = (case map_of kvs key of Some v \<Rightarrow> v | None \<Rightarrow> JUndefined)"
| "getProp v key = JUndefined"

fun toDigits :: "nat \<Rightarrow> string" where
  "toDigits n =
     (if n < 10 then [''0123456789'' ! n]
      else toDigits (n div 10) @ [''0123456789'' ! (n mod 10)])"

declare toDigits.simps [simp del]

text \<open>\<^verbatim>\<open>Number.prototype.toString\<close> on an integer.\<close>

definition numToString :: "int \<Rightarrow> string" where
  "numToString n = (if n < 0 then CHR ''-'' # toDigits (nat (- n)) else toDigits (nat n))"

text \<open>lodash's \<^verbatim>\<open>toString\<close>, which \<^verbatim>\<open>_.split\<close> applies to its first argument.\<close>

fun toString :: "jsval \<Rightarrow> string" where
  "toString JUndefined = []"
| "toString JNull = []"
| "toString (JBool b) = (if b then ''true'' else ''false'')"
| "toString (JNum n) = numToString n"
| "toString (JStr s) = s"
| "toString (JObj kvs) = ''[object Object]''"

text \<open>\<^verbatim>\<open>_.padStart(s, n, c)\<close> with a one-character pad.\<close>

definition padStart :: "string \<Rightarrow> nat \<Rightarrow> char \<Rightarrow> string" where
  "padStart s n c = replicate (n - length s) c @ s"

text \<open>\<^verbatim>\<open>String.prototype.split\<close> on a one-character separator.\<close>

fun js_split :: "char \<Rightarrow> string \<Rightarrow> string list" where
  "js_split c [] = [[]]"
| "js_split c (x # xs) =
     (if x = c then [] # js_split c xs
      else (case js_split c xs of [] \<Rightarrow> [[x]] | y # ys \<Rightarrow> (x # y) # ys))"

section \<open>Definition registry\<close>

text \<open>
  \<^verbatim>\<open>require('./definitions')\<close>: the registry file is not part of the sources at hand,
  so the list of definitions is a parameter of every function that reads it. A
  \<^verbatim>\<open>pattern\<close> is a regular expression without the flags \<^verbatim>\<open>g\<close> and \<^verbatim>\<open>y\<close>,
  kept as the predicate that its \<^verbatim>\<open>test\<close> method decides. The \<^verbatim>\<open>type\<close> of a
  definition is a string, the name of a primitive type or the identifier of another
  definition, or an inline object schema with its \<^verbatim>\<open>properties\<close> and
  \<^verbatim>\<open>required\<close> names.
\<close>

record property =
  name :: string
  ptype :: string
  pversion :: "string option"

record schema =
  properties :: "property list"
  required :: "string list"

datatype dtype = TName string | TObject schema

record defn =
  "identifier" :: string
  version :: string
  type :: dtype
  pattern :: "(string \<Rightarrow> bool) option"
  minimumLength :: "int option"
  maximumLength :: "int option"
  minimum :: "int option"
  maximum :: "int option"
  exclusiveMinimum :: "bool option"
  exclusiveMaximum :: "bool option"
  credentialItem :: bool
  attestable :: bool

section \<open>Value validator\<close>

text \<open>\<^verbatim>\<open>isValueOfType(value, type)\<close>, lines 14-25.\<close>

definition isValueOfType :: "jsval \<Rightarrow> string \<Rightarrow> bool" where
  "isValueOfType v t =
     (if t = ''String'' then (case v of JStr s \<Rightarrow> True | _ \<Rightarrow> False)
      else if t = ''Number'' then (case v of JNum n \<Rightarrow> True | _ \<Rightarrow> False)
      else if t = ''Boolean'' then (case v of JBool b \<Rightarrow> True | _ \<Rightarrow> False)
      else False)"

text \<open>
  A comparison with a bound that may be missing: \<^verbatim>\<open>value >= undefined\<close> and its
  siblings are false.
\<close>

definition gt_bound :: "int \<Rightarrow> int option \<Rightarrow> bool" where
  "gt_bound v b = (case b of None \<Rightarrow> False | Some m \<Rightarrow> v > m)"

definition ge_bound :: "int \<Rightarrow> int option \<Rightarrow> bool" where
  "ge_bound v b = (case b of None \<Rightarrow> False | Some m \<Rightarrow> v \<ge> m)"

definition lt_bound :: "int \<Rightarrow> int option \<Rightarrow> bool" where
  "lt_bound v b = (case b of None \<Rightarrow> False | Some m \<Rightarrow> v < m)"

definition le_bound :: "int \<Rightarrow> int option \<Rightarrow> bool" where
  "le_bound v b = (case b of None \<Rightarrow> False | Some m \<Rightarrow> v \<le> m)"

text \<open>Truthiness of an optional number and of an optional flag.\<close>

definition isSet :: "int option \<Rightarrow> bool" where
  "isSet b = (case b of None \<Rightarrow> False | Some m \<Rightarrow> m \<noteq> 0)"

definition isOn :: "bool option \<Rightarrow> bool" where
  "isOn b = (case b of None \<Rightarrow> False | Some f \<Rightarrow> f)"

text \<open>
  \<^verbatim>\<open>isValid(value, type, definition)\<close>, lines 27-43. The constructor calls it only
  after \<^verbatim>\<open>isValueOfType(value, type)\<close>, so under \<^verbatim>\<open>'String'\<close> the value is a string
  and under \<^verbatim>\<open>'Number'\<close> a number; the other combinations are not reached and are
  mapped to \<open>False\<close>. The third conjunct of the string case compares the length with
  \<^verbatim>\<open>definition.minimumLength\<close>, as line 32 does.
\<close>

definition isValid :: "jsval \<Rightarrow> string \<Rightarrow> defn \<Rightarrow> bool" where
  "isValid v t d =
     (if t = ''String'' then
        (case v of
           JStr s \<Rightarrow>
             (case pattern d of Some test \<Rightarrow> test s | None \<Rightarrow> True) \<and>
             (if isSet (minimumLength d) then ge_bound (int (length s)) (minimumLength d) else True) \<and>
             (if isSet (maximumLength d) then le_bound (int (length s)) (minimumLength d) else True)
         | _ \<Rightarrow> False)
      else if t = ''Number'' then
        (case v of
           JNum n \<Rightarrow>
             ((if minimum d \<noteq> None \<and> isOn (exclusiveMinimum d)
               then gt_bound n (minimum d) else ge_bound n (minimum d)) \<or> minimum d = None) \<and>
             ((if maximum d \<noteq> None \<and> isOn (exclusiveMaximum d)
               then lt_bound n (maximum d) else le_bound n (maximum d)) \<or> maximum d = None)
         | _ \<Rightarrow> False)
      else if t = ''Boolean'' then (case v of JBool b \<Rightarrow> True | _ \<Rightarrow> False)
      else False)"

text \<open>
  The bounds as the specification words them: \<^verbatim>\<open>></ <\<close> when the exclusive flag is
  set, else \<^verbatim>\<open>>=/<=\<close>; an absent bound imposes no constraint.
\<close>

definition spec_respectsMinimum :: "defn \<Rightarrow> int \<Rightarrow> bool" where
  "spec_respectsMinimum d v =
     (case minimum d of
        None \<Rightarrow> True
      | Some m \<Rightarrow> if exclusiveMinimum d = Some True then m < v else m \<le> v)"

definition spec_respectsMaximum :: "defn \<Rightarrow> int \<Rightarrow> bool" where
  "spec_respectsMaximum d v =
     (case maximum d of
        None \<Rightarrow> True
      | Some m \<Rightarrow> if exclusiveMaximum d = Some True then v < m else v \<le> m)"

text \<open>
  The constraints as the specification words them (4.2). String: the pattern, if
  present, must match, and the length must be at least \<^verbatim>\<open>minimumLength\<close> and at
  most \<^verbatim>\<open>maximumLength\<close>, if present. Number: the value must respect the two
  bounds. Boolean: always valid if it is a boolean. Any other type name: invalid.
\<close>

definition spec_satisfiesConstraints :: "jsval \<Rightarrow> string \<Rightarrow> defn \<Rightarrow> bool" where
  "spec_satisfiesConstraints v t d =
     (if t = ''String'' then
        (case v of
           JStr s \<Rightarrow>
             (case pattern d of None \<Rightarrow> True | Some test \<Rightarrow> test s) \<and>
             (case minimumLength d of None \<Rightarrow> True | Some m \<Rightarrow> m \<le> int (length s)) \<and>
             (case maximumLength d of None \<Rightarrow> True | Some m \<Rightarrow> int (length s) \<le> m)
         | _ \<Rightarrow> False)
      else if t = ''Number'' then
        (case v of JNum n \<Rightarrow> spec_respectsMinimum d n \<and> spec_respectsMaximum d n | _ \<Rightarrow> False)
      else if t = ''Boolean'' then (case v of JBool b \<Rightarrow> True | _ \<Rightarrow> False)
      else False)"

section \<open>Commitment codec: parsing\<close>

text \<open>\<^verbatim>\<open>\w\<close>: a letter, a digit or the underscore.\<close>

definition isWordChar :: "char \<Rightarrow> bool" where
  "isWordChar c =
     (let n = (of_char c :: nat) in
        (48 \<le> n \<and> n \<le> 57) \<or> (65 \<le> n \<and> n \<le> 90) \<or> n = 95 \<or> (97 \<le> n \<and> n \<le> 122))"

text \<open>
  \<^verbatim>\<open>/^urn:(\w*):(\w*):([\w|\W]*)/.exec(s)\<close>, line 82: the three groups of a match. A
  word character is never a colon, so each \<^verbatim>\<open>\w*\<close> takes the longest run of word
  characters and the match fails when no colon follows it; the last group takes the
  rest of the string. A match always has four entries (the whole match and three
  groups), so the test \<^verbatim>\<open>match.length === 4\<close> of line 85 adds nothing.
\<close>

definition attestableValueRegex :: "string \<Rightarrow> (string \<times> string \<times> string) option" where
  "attestableValueRegex s =
     (if take 4 s = ''urn:'' then
        (let r1 = drop 4 s; p = takeWhile isWordChar r1 in
           (case dropWhile isWordChar r1 of
              [] \<Rightarrow> None
            | c # r2 \<Rightarrow>
                if c = CHR '':'' then
                  (let sa = takeWhile isWordChar r2 in
                     (case dropWhile isWordChar r2 of
                        [] \<Rightarrow> None
                      | c' # r3 \<Rightarrow> if c' = CHR '':'' then Some (p, sa, r3) else None))
                else None))
      else None)"

record component =
  propertyName :: string
  salt :: string
  valueStr :: string
  stringValue :: string

text \<open>
  The loop of lines 83-94 over the segments: a segment that matches contributes a
  component, with the segment itself as \<^verbatim>\<open>stringValue\<close>; the field
  \<^verbatim>\<open>value\<close> of the source is \<open>valueStr\<close> here.
\<close>

fun eachSegment :: "string list \<Rightarrow> component list" where
  "eachSegment [] = []"
| "eachSegment (seg # rest) =
     (case attestableValueRegex seg of
        Some (p, sa, v) \<Rightarrow>
          \<lparr>propertyName = p, salt = sa, valueStr = v, stringValue = seg\<rparr> # eachSegment rest
      | None \<Rightarrow> eachSegment rest)"

text \<open>\<^verbatim>\<open>value && value.attestableValue\<close>, lines 75-77, as a truth value.\<close>

definition isAttestableValue :: "jsval \<Rightarrow> bool" where
  "isAttestableValue v = (truthy v \<and> truthy (getProp v ''attestableValue''))"

text \<open>\<^verbatim>\<open>_.split(value.attestableValue, '|')\<close>, line 81.\<close>

definition splitPipes :: "jsval \<Rightarrow> string list" where
  "splitPipes v = js_split (CHR ''|'') (toString (getProp v ''attestableValue''))"

text \<open>
  \<^verbatim>\<open>parseAttestableValue(value)\<close>, lines 79-99. Reading \<^verbatim>\<open>value.attestableValue\<close>
  raises a \<^verbatim>\<open>TypeError\<close> on \<^verbatim>\<open>null\<close> and \<^verbatim>\<open>undefined\<close>; the constructor
  calls the function only with a value that passes \<open>isAttestableValue\<close>.
\<close>

definition parseAttestableValue :: "jsval \<Rightarrow> error + component list" where
  "parseAttestableValue v =
     (if v = JUndefined \<or> v = JNull then Inl TypeError
      else
        (let values = eachSegment (splitPipes v) in
           if length (splitPipes v) \<noteq> length values \<and> length (splitPipes v) \<noteq> length values + 1
           then Inl MalformedCommitment
           else Inr values))"

text \<open>
  The grammar of a segment as the specification states it (section 6):
  \<^verbatim>\<open>segment := "urn:" propertyName ":" salt ":" value\<close> with
  \<^verbatim>\<open>propertyName := \w+\<close>, \<^verbatim>\<open>salt := \w+\<close> and the value any run of characters
  other than \<^verbatim>\<open>|\<close>.
\<close>

definition spec_segment :: "string \<Rightarrow> bool" where
  "spec_segment seg =
     (\<exists>p sa v. seg = ''urn:'' @ p @ '':'' @ sa @ '':'' @ v
        \<and> p \<noteq> [] \<and> list_all isWordChar p \<and> sa \<noteq> [] \<and> list_all isWordChar sa
        \<and> CHR ''|'' \<notin> set v)"

text \<open>
  The grammar that the regular expression of line 82 stands for, stated without the
  matcher: \<open>seg\<close> is \<^verbatim>\<open>urn:\<close>, a run of word characters \<open>p\<close> that may be empty,
  a colon, a run of word characters \<open>sa\<close> that may be empty, a colon, and any string
  \<open>v\<close>. The segments of a commitment that match the grammar are those that have
  such a reading.
\<close>

definition urnSegment :: "string \<Rightarrow> string \<Rightarrow> string \<Rightarrow> string \<Rightarrow> bool" where
  "urnSegment seg p sa v =
     (seg = ''urn:'' @ p @ '':'' @ sa @ '':'' @ v \<and> list_all isWordChar p \<and> list_all isWordChar sa)"

definition isSegment :: "string \<Rightarrow> bool" where
  "isSegment seg = (\<exists>p sa v. urnSegment seg p sa v)"

definition matchingSegments :: "jsval \<Rightarrow> string list" where
  "matchingSegments v = filter isSegment (splitPipes v)"

section \<open>Type resolver\<close>

text \<open>
  \<^verbatim>\<open>getTypeName\<close>, lines 49-59, and \<^verbatim>\<open>resolveType\<close>, lines 61-73, follow the
  references from a definition to the definition that its type names, always to the
  first one with that identifier. On a registry whose references run in a circle
  the source recurses until the engine gives up with a \<^verbatim>\<open>RangeError\<close>. The model
  counts the steps: a chain that ends visits each first definition at most once, so
  it needs no more steps than the registry has definitions, and a chain that needs
  more never ends. \<^verbatim>\<open>validIdentifiers\<close> is computed once, at line 7; no
  construction changes an identifier, so computing it from the current registry
  gives the same list.
\<close>

definition validIdentifiers :: "defn list \<Rightarrow> string list" where
  "validIdentifiers definitions = map identifier definitions"

fun getTypeNameF :: "nat \<Rightarrow> defn list \<Rightarrow> defn \<Rightarrow> error + string" where
  "getTypeNameF fuel definitions d =
     (case type d of
        TName s \<Rightarrow>
          if s \<in> set (validIdentifiers definitions) then
            (case find (\<lambda>x. identifier x = s) definitions of
               None \<Rightarrow> Inl TypeError
             | Some innerDefinition \<Rightarrow>
                 (case fuel of
                    0 \<Rightarrow> Inl RangeError
                  | Suc n \<Rightarrow> getTypeNameF n definitions innerDefinition))
          else Inr s
      | TObject sch \<Rightarrow> Inr ''Object'')"

definition getTypeName :: "defn list \<Rightarrow> defn \<Rightarrow> error + string" where
  "getTypeName definitions d = getTypeNameF (length definitions) definitions d"

fun resolveTypeF :: "nat \<Rightarrow> defn list \<Rightarrow> defn \<Rightarrow> error + dtype" where
  "resolveTypeF fuel definitions d =
     (case getTypeName definitions d of
        Inl e \<Rightarrow> Inl e
      | Inr typeName \<Rightarrow>
          if typeName \<noteq> ''Object'' then Inr (TName typeName)
          else (case type d of
                  TObject sch \<Rightarrow> Inr (TObject sch)
                | TName s \<Rightarrow>
                    (case find (\<lambda>x. identifier x = s) definitions of
                       None \<Rightarrow> Inl TypeError
                     | Some refDefinition \<Rightarrow>
                         (case fuel of
                            0 \<Rightarrow> Inl RangeError
                          | Suc n \<Rightarrow> resolveTypeF n definitions refDefinition))))"

definition resolveType :: "defn list \<Rightarrow> defn \<Rightarrow> error + dtype" where
  "resolveType definitions d = resolveTypeF (length definitions) definitions d"

section \<open>Instances and their commitments\<close>

text \<open>
  The fields that the constructor sets on \<^verbatim>\<open>this\<close>. The value is the raw value
  or the string taken from a commitment, or an object with one child instance under
  each key, listed in the order of insertion. A timestamp that is \<^verbatim>\<open>null\<close> and a
  salt that was never assigned are \<open>None\<close>.
\<close>

datatype 'u uvalue = Raw jsval | Children "(string \<times> 'u) list"

datatype uca = UCA
  (uca_timestamp: "int option")
  (uca_id: string)
  (uca_identifier: string)
  (uca_version: string)
  (uca_type: string)
  (uca_value: "uca uvalue")
  (uca_salt: "string option")

text \<open>
  The \<^verbatim>\<open>_.reduce\<close> of line 177 over the sorted keys, given for each key the
  commitment of the child or the exception that computing it raised.
\<close>

fun joinChildren :: "string list \<Rightarrow> (string \<times> (error + string)) list \<Rightarrow> error + string" where
  "joinChildren [] m = Inr []"
| "joinChildren (k # ks) m =
     (case map_of m k of
        None \<Rightarrow> Inl TypeError
      | Some (Inl e) \<Rightarrow> Inl e
      | Some (Inr s) \<Rightarrow>
          (case joinChildren ks m of
             Inl e \<Rightarrow> Inl e
           | Inr rest \<Rightarrow> Inr (s @ ''|'' @ rest)))"

text \<open>\<^verbatim>\<open>`${x}`\<close>: the string a template literal makes of a value.\<close>

fun jsString :: "jsval \<Rightarrow> string" where
  "jsString JUndefined = ''undefined''"
| "jsString JNull = ''null''"
| "jsString v = toString v"

fun valueString :: "'u uvalue \<Rightarrow> string" where
  "valueString (Raw x) = jsString x"
| "valueString (Children kvs) = ''[object Object]''"

text \<open>
  \<^verbatim>\<open>`${this.salt}`\<close>, and the property name of lines 166-167: what follows the
  last dot of the identifier or, without a dot, the last colon.
\<close>

definition saltString :: "string option \<Rightarrow> string" where
  "saltString sa = (case sa of None \<Rightarrow> ''undefined'' | Some s \<Rightarrow> s)"

definition afterLast :: "char \<Rightarrow> string \<Rightarrow> string" where
  "afterLast c s = rev (takeWhile (\<lambda>x. x \<noteq> c) (rev s))"

definition propertyNameOf :: "string \<Rightarrow> string" where
  "propertyNameOf ident =
     (if CHR ''.'' \<in> set ident then afterLast (CHR ''.'') ident else afterLast (CHR '':'') ident)"

definition urn :: "string \<Rightarrow> string \<Rightarrow> string \<Rightarrow> string" where
  "urn p sa v = ''urn:'' @ p @ '':'' @ sa @ '':'' @ v"

text \<open>
  \<^verbatim>\<open>getAttestableValue\<close>, lines 164-179. Under \<^verbatim>\<open>'Number'\<close> the value is sent
  \<^verbatim>\<open>toString()\<close>, a \<^verbatim>\<open>TypeError\<close> on \<^verbatim>\<open>null\<close> and \<^verbatim>\<open>undefined\<close>, and
  padded to eight characters. Under any other type than the three primitive ones
  the keys of the value are sorted and each child is asked for its commitment;
  \<^verbatim>\<open>_.keys\<close> of a raw value gives the indices of a string or the own properties
  of an object, none of which is an instance, and nothing for any other value.
\<close>

fun getAttestableValue :: "uca \<Rightarrow> error + string" where
  "getAttestableValue (UCA ts i ident ver t v sa) =
     (if t = ''String'' then Inr (urn (propertyNameOf ident) (saltString sa) (valueString v))
      else if t = ''Number'' then
        (if v = Raw JUndefined \<or> v = Raw JNull then Inl TypeError
         else Inr (urn (propertyNameOf ident) (saltString sa) (padStart (valueString v) 8 (CHR ''0''))))
      else if t = ''Boolean'' then Inr (urn (propertyNameOf ident) (saltString sa) (valueString v))
      else (case v of
              Children kvs \<Rightarrow>
                joinChildren (sort (map fst kvs)) (map (\<lambda>(k, c). (k, getAttestableValue c)) kvs)
            | Raw (JStr s) \<Rightarrow> if s = [] then Inr [] else Inl TypeError
            | Raw (JObj ps) \<Rightarrow> if ps = [] then Inr [] else Inl TypeError
            | Raw x \<Rightarrow> Inr []))"

text \<open>
  The value part of the commitment of a leaf of type \<open>t\<close> that holds the raw value
  \<open>v\<close>: the value itself, and for a number its decimal digits padded to eight.
\<close>

definition leafText :: "string \<Rightarrow> jsval \<Rightarrow> string" where
  "leafText t v = (if t = ''Number'' then padStart (toString v) 8 (CHR ''0'') else toString v)"

section \<open>The constructor\<close>

text \<open>
  What the module takes from outside: \<^verbatim>\<open>sjcl\<close>'s SHA-256 rendered in hex,
  \<^verbatim>\<open>SecureRandom.wordWith(64)\<close> and \<^verbatim>\<open>timestamp.now()\<close>, neither of which is
  part of the sources at hand, and the engine's prototypes of the primitive values.
  The random source and the clock are read through a counter that the world keeps:
  the \<open>n\<close>-th draw of a run of the program yields \<open>wordWith e n\<close>.
  \<open>primitiveMembers e v\<close> lists the names that a string, a number or a boolean
  \<open>v\<close> inherits from \<^verbatim>\<open>String.prototype\<close>, \<^verbatim>\<open>Number.prototype\<close> or
  \<^verbatim>\<open>Boolean.prototype\<close>; the list depends on the edition of the language that the
  engine implements.
\<close>

record env =
  sha256hex :: "string \<Rightarrow> string"
  wordWith :: "nat \<Rightarrow> string"
  now :: "nat \<Rightarrow> int"
  primitiveMembers :: "jsval \<Rightarrow> string list"

text \<open>
  The state that a construction reads and writes: the registry (line 121 assigns to
  a definition of it), and how many random words and timestamps have been drawn.
\<close>

record world =
  definitions :: "defn list"
  draws :: nat
  ticks :: nat

text \<open>
  Line 116: a version is taken into the lookup when it is truthy, that is, given and
  not the empty string. \<^verbatim>\<open>_.find\<close> returns the first definition that matches.
\<close>

definition given :: "string option \<Rightarrow> bool" where
  "given ver = (case ver of None \<Rightarrow> False | Some v \<Rightarrow> v \<noteq> [])"

definition matches :: "string \<Rightarrow> string option \<Rightarrow> defn \<Rightarrow> bool" where
  "matches ident ver d =
     (if given ver then identifier d = ident \<and> version d = the ver else identifier d = ident)"

text \<open>
  The assignment \<^verbatim>\<open>definition.type = resolveType(definition)\<close> of line 121. The
  definition is the object that \<^verbatim>\<open>_.find\<close> has returned, an element of the
  registry: the first definition that matches gets the type, in place.
\<close>

fun assignType :: "(defn \<Rightarrow> bool) \<Rightarrow> dtype \<Rightarrow> defn list \<Rightarrow> defn list" where
  "assignType P t [] = []"
| "assignType P t (d # ds) = (if P d then d\<lparr>type := t\<rparr> # ds else d # assignType P t ds)"

text \<open>
  Lines 110-121: the test of the identifier, the lookup, \<^verbatim>\<open>getTypeName\<close> and
  \<^verbatim>\<open>resolveType\<close> on what the lookup returned (a \<^verbatim>\<open>TypeError\<close> when it returned
  \<^verbatim>\<open>undefined\<close>), and the assignment. The result is the definition as it is after
  the assignment, the version of line 117 and the type name of line 119.
\<close>

definition resolveDefinition ::
  "world \<Rightarrow> string \<Rightarrow> string option \<Rightarrow> (error + defn \<times> string \<times> string) \<times> world" where
  "resolveDefinition w ident ver =
     (if ident \<notin> set (validIdentifiers (definitions w)) then (Inl (UnknownIdentifier ident), w)
      else (case find (matches ident ver) (definitions w) of
              None \<Rightarrow> (Inl TypeError, w)
            | Some d \<Rightarrow>
                (case getTypeName (definitions w) d of
                   Inl e \<Rightarrow> (Inl e, w)
                 | Inr t \<Rightarrow>
                     (case resolveType (definitions w) d of
                        Inl e \<Rightarrow> (Inl e, w)
                      | Inr ct \<Rightarrow>
                          (Inr (d\<lparr>type := ct\<rparr>, if given ver then the ver else version d, t),
                           w\<lparr>definitions := assignType (matches ident ver) ct (definitions w)\<rparr>)))))"

text \<open>
  Lines 245-248: the identifier of the instance is made of the version, the
  identifier and the hash of the commitment; computing the commitment may raise.
\<close>

definition finish ::
  "env \<Rightarrow> world \<Rightarrow> string \<Rightarrow> string \<Rightarrow> string \<Rightarrow> int option \<Rightarrow> uca uvalue \<Rightarrow> string option
     \<Rightarrow> (error + uca) \<times> world" where
  "finish e w ident ver t ts v sa =
     (case getAttestableValue (UCA ts [] ident ver t v sa) of
        Inl err \<Rightarrow> (Inl err, w)
      | Inr s \<Rightarrow> (Inr (UCA ts (ver @ '':'' @ ident @ '':'' @ sha256hex e s) ident ver t v sa), w))"

text \<open>
  \<^verbatim>\<open>String.prototype.endsWith\<close>, and \<^verbatim>\<open>definition.type.properties\<close> and
  \<^verbatim>\<open>definition.type.required\<close>, which are \<^verbatim>\<open>undefined\<close> on a type that is a
  string and then behave as empty lists in lines 149 and 152.
\<close>

definition endsWith :: "string \<Rightarrow> string \<Rightarrow> bool" where
  "endsWith s x = (length x \<le> length s \<and> drop (length s - length x) s = x)"

definition propertiesOf :: "dtype \<Rightarrow> property list" where
  "propertiesOf t = (case t of TName s \<Rightarrow> [] | TObject sch \<Rightarrow> properties sch)"

definition requiredOf :: "dtype \<Rightarrow> string list" where
  "requiredOf t = (case t of TName s \<Rightarrow> [] | TObject sch \<Rightarrow> required sch)"

text \<open>
  The names that every object inherits from \<^verbatim>\<open>Object.prototype\<close>. Each of these
  members is a function, and \<^verbatim>\<open>__proto__\<close> reads as the prototype object.
\<close>

definition objectPrototype :: "string list" where
  "objectPrototype =
     [''constructor'', ''__defineGetter__'', ''__defineSetter__'', ''hasOwnProperty'',
      ''__lookupGetter__'', ''__lookupSetter__'', ''isPrototypeOf'', ''propertyIsEnumerable'',
      ''toString'', ''valueOf'', ''__proto__'', ''toLocaleString'']"

text \<open>
  \<^verbatim>\<open>value[key]\<close> on a value that is neither \<^verbatim>\<open>null\<close> nor \<^verbatim>\<open>undefined\<close>: an own
  property or, failing that, a member of the prototype chain. A string owns its
  \<^verbatim>\<open>length\<close> and one character under each index. Line 152, the only place that
  reads a member under a name taken from the registry, looks at nothing but its
  truthiness, and every inherited member is truthy: \<open>JObj []\<close> stands for it.
\<close>

fun getMember :: "env \<Rightarrow> jsval \<Rightarrow> string \<Rightarrow> jsval" where
  "getMember e (JObj kvs) key =
     (case map_of kvs key of
        Some v \<Rightarrow> v
      | None \<Rightarrow> if key \<in> set objectPrototype then JObj [] else JUndefined)"
| "getMember e (JStr s) key =
     (if key = ''length'' then JNum (int (length s))
      else
        (case find (\<lambda>i. toDigits i = key) [0..<length s] of
           Some i \<Rightarrow> JStr [s ! i]
         | None \<Rightarrow>
             if key \<in> set (primitiveMembers e (JStr s)) \<or> key \<in> set objectPrototype then JObj []
             else JUndefined))"
| "getMember e v key =
     (if key \<in> set (primitiveMembers e v) \<or> key \<in> set objectPrototype then JObj [] else JUndefined)"

text \<open>
  Line 152: \<^verbatim>\<open>_.reduce(definition.type.required, (has, required) => value[required] && has, true)\<close>.
  Without required names the callback never runs; with one, reading a member of
  \<^verbatim>\<open>null\<close> or \<^verbatim>\<open>undefined\<close> raises a \<^verbatim>\<open>TypeError\<close>. The result is truthy iff
  every \<^verbatim>\<open>value[required]\<close> is.
\<close>

definition hasRequireds :: "env \<Rightarrow> dtype \<Rightarrow> jsval \<Rightarrow> error + bool" where
  "hasRequireds e t v =
     (if requiredOf t = [] then Inr True
      else if v = JUndefined \<or> v = JNull then Inl TypeError
      else Inr (list_all (\<lambda>r. truthy (getMember e v r)) (requiredOf t)))"

text \<open>
  lodash's \<^verbatim>\<open>isArrayLike\<close>, which decides how \<^verbatim>\<open>_.map\<close> walks its argument: a
  value that has a \<^verbatim>\<open>length\<close> which is an integer from \<open>0\<close> to \<open>2\<^sup>5\<^sup>3 - 1\<close>. A
  mapping has one when it owns a property of that name, a string always has.
\<close>

definition arrayLength :: "jsval \<Rightarrow> int option" where
  "arrayLength v =
     (case v of
        JObj kvs \<Rightarrow>
          (case map_of kvs ''length'' of
             Some (JNum n) \<Rightarrow> if 0 \<le> n \<and> n \<le> 9007199254740991 then Some n else None
           | _ \<Rightarrow> None)
      | JStr s \<Rightarrow> Some (int (length s))
      | _ \<Rightarrow> None)"

text \<open>
  The pairs that \<^verbatim>\<open>_.map(value, (v, k) => ...)\<close> of line 156 hands to its callback.
  For a value that is not array-like these are its own properties (none for a
  number, a boolean, \<^verbatim>\<open>null\<close> or \<^verbatim>\<open>undefined\<close>). For an array-like value of
  length \<open>n\<close>, \<^verbatim>\<open>_.map\<close> allocates \<^verbatim>\<open>Array(n)\<close>, a \<^verbatim>\<open>RangeError\<close> beyond
  \<open>2\<^sup>3\<^sup>2 - 1\<close>, and calls back with the indices \<open>0, ..., n - 1\<close> as keys. An index
  is a number and the name of a property a string, so \<^verbatim>\<open>_.find\<close> of line 157 finds
  nothing for the first index and line 158 raises a \<^verbatim>\<open>TypeError\<close> before any child
  is built.
\<close>

definition entriesOf :: "jsval \<Rightarrow> error + (string \<times> jsval) list" where
  "entriesOf v =
     (case arrayLength v of
        Some n \<Rightarrow>
          if n = 0 then Inr [] else if n \<le> 4294967295 then Inl TypeError else Inl RangeError
      | None \<Rightarrow> (case v of JObj kvs \<Rightarrow> Inr kvs | _ \<Rightarrow> Inr []))"

text \<open>
  \<^verbatim>\<open>_.mapValues(_.keyBy(pairs, 'key'), 'value')\<close>: an object with one property for
  each key, in the order in which the keys first occur; a later pair with the same
  key replaces the value.
\<close>

definition keyBy :: "(string \<times> uca) list \<Rightarrow> (string \<times> uca) list" where
  "keyBy pairs = foldl (\<lambda>obj (k, u). AList.update k u obj) [] pairs"

text \<open>
  The constructor calls itself on the values of a mapping and on the segments of a
  commitment. A measure that decreases with each call: the size of the value, in
  which a string counts for the separators that it has.
\<close>

fun weight :: "jsval \<Rightarrow> nat" where
  "weight (JObj kvs) = Suc (sum_list (map (\<lambda>kv. weight (snd kv)) kvs))"
| "weight v = Suc (20 * count_list (toString v) (CHR ''|''))"

lemma js_split_nonempty: "js_split c s \<noteq> []"
  by (induction s) (auto split: list.splits)

lemma length_js_split: "length (js_split c s) = Suc (count_list s c)"
  by (induction s) (auto split: list.splits simp: js_split_nonempty)

lemma js_split_no_separator: "x \<in> set (js_split c s) \<Longrightarrow> c \<notin> set x"
  by (induction s arbitrary: x) (auto split: list.splits if_splits)

lemma eachSegment_stringValue: "c \<in> set (eachSegment ss) \<Longrightarrow> stringValue c \<in> set ss"
  by (induction ss) (auto split: option.splits)

lemma length_eachSegment_le: "length (eachSegment ss) \<le> length ss"
  by (induction ss) (auto split: option.splits)

definition segmentsWeight :: "component list \<Rightarrow> nat" where
  "segmentsWeight cs = Suc (sum_list (map (\<lambda>c. 5 + 40 * count_list (stringValue c) (CHR ''|'')) cs))"

lemma segmentsWeight_Cons:
  "segmentsWeight (c # cs) = 5 + 40 * count_list (stringValue c) (CHR ''|'') + segmentsWeight cs"
  by (simp add: segmentsWeight_def)

lemma weight_toString: "Suc (20 * count_list (toString x) (CHR ''|'')) \<le> weight x"
  by (cases x) simp_all

lemma weight_pos: "0 < weight v"
  by (cases v) simp_all

lemma weight_member: "(k, x) \<in> set kvs \<Longrightarrow> weight x \<le> sum_list (map (\<lambda>kv. weight (snd kv)) kvs)"
  by (induction kvs) auto

lemma weight_entriesOf:
  "entriesOf v = Inr kvs \<Longrightarrow> Suc (2 * sum_list (map (\<lambda>kv. weight (snd kv)) kvs)) < 2 * weight v"
  by (cases v) (auto simp: entriesOf_def arrayLength_def split: if_splits option.splits jsval.splits)

lemma segmentsWeight_parsed:
  assumes "isAttestableValue v" and "parseAttestableValue v = Inr parsed" and "length parsed \<noteq> 1"
  shows "segmentsWeight parsed < 2 * weight v"
proof -
  obtain kvs x where v: "v = JObj kvs" and x: "map_of kvs ''attestableValue'' = Some x"
    using assms(1) by (cases v) (auto simp: isAttestableValue_def split: option.splits)
  let ?s = "toString x"
  have parsed: "parsed = eachSegment (js_split (CHR ''|'') ?s)"
    using assms(2) v x by (auto simp: parseAttestableValue_def splitPipes_def Let_def split: if_splits)
  have nopipe: "count_list (stringValue c) (CHR ''|'') = 0" if "c \<in> set parsed" for c
    using that parsed eachSegment_stringValue js_split_no_separator
    by (metis count_list_0_iff)
  have "sum_list (map (\<lambda>c. 5 + 40 * count_list (stringValue c) (CHR ''|'')) parsed) = 5 * length parsed"
    using nopipe by (induction parsed) auto
  then have sw: "segmentsWeight parsed = Suc (5 * length parsed)"
    by (simp add: segmentsWeight_def)
  have len: "length parsed \<le> Suc (count_list ?s (CHR ''|''))"
    using parsed length_eachSegment_le [of "js_split (CHR ''|'') ?s"] by (simp add: length_js_split)
  have "(''attestableValue'', x) \<in> set kvs"
    using x by (rule map_of_SomeD)
  then have "weight x \<le> sum_list (map (\<lambda>kv. weight (snd kv)) kvs)"
    by (rule weight_member)
  then have w: "Suc (Suc (20 * count_list ?s (CHR ''|''))) \<le> weight v"
    using weight_toString [of x] v by simp
  show ?thesis
  proof (cases "count_list ?s (CHR ''|'') = 0")
    case True
    then have "length parsed = 0" using len assms(3) by linarith
    then show ?thesis using sw w by simp
  next
    case False
    then show ?thesis using sw len w by linarith
  qed
qed

text \<open>
  \<^verbatim>\<open>UCABaseConstructor(identifier, value, version)\<close>, lines 106-249, with the loop
  of lines 132-137 as \<open>reconstructProperties\<close> and the callback of lines 156-160 as
  \<open>constructProperties\<close>. A call returns the instance or the exception, and the
  world as the call has left it: an exception does not undo the assignment of line
  121 nor the draws of the children built before it.
\<close>

function UCABaseConstructor ::
    "env \<Rightarrow> world \<Rightarrow> string \<Rightarrow> jsval \<Rightarrow> string option \<Rightarrow> (error + uca) \<times> world"
  and constructProperties ::
    "env \<Rightarrow> world \<Rightarrow> property list \<Rightarrow> (string \<times> jsval) list \<Rightarrow> (error + (string \<times> uca) list) \<times> world"
  and reconstructProperties ::
    "env \<Rightarrow> world \<Rightarrow> property list \<Rightarrow> component list \<Rightarrow> (string \<times> uca) list
       \<Rightarrow> (error + (string \<times> uca) list) \<times> world"
where
  "UCABaseConstructor e w ident v ver =
     (case resolveDefinition w ident ver of
        (Inl err, w1) \<Rightarrow> (Inl err, w1)
      | (Inr (d, vers, t), w1) \<Rightarrow>
          if isAttestableValue v then
            (case parseAttestableValue v of
               Inl err \<Rightarrow> (Inl err, w1)
             | Inr parsed \<Rightarrow>
                 if length parsed = 1 then
                   finish e w1 ident vers t None (Raw (JStr (valueStr (hd parsed)))) (Some (salt (hd parsed)))
                 else
                   (case reconstructProperties e w1 (propertiesOf (type d)) parsed [] of
                      (Inl err, w2) \<Rightarrow> (Inl err, w2)
                    | (Inr ucaValue, w2) \<Rightarrow> finish e w2 ident vers t None (Children ucaValue) None))
          else if isValueOfType v t then
            (let w2 = w1\<lparr>ticks := Suc (ticks w1)\<rparr> in
               if \<not> isValid v t d then (Inl (InvalidValue ident), w2)
               else finish e (w2\<lparr>draws := Suc (draws w2)\<rparr>) ident vers t
                      (Some (now e (ticks w1))) (Raw v) (Some (sha256hex e (wordWith e (draws w2)))))
          else if propertiesOf (type d) = [] then (Inl (InvalidValue ident), w1)
          else
            (case hasRequireds e (type d) v of
               Inl err \<Rightarrow> (Inl err, w1)
             | Inr has \<Rightarrow>
                 if \<not> has then (Inl (MissingRequiredField ident), w1)
                 else
                   (case entriesOf v of
                      Inl err \<Rightarrow> (Inl err, w1)
                    | Inr kvs \<Rightarrow>
                        (case constructProperties e w1 (propertiesOf (type d)) kvs of
                           (Inl err, w2) \<Rightarrow> (Inl err, w2)
                         | (Inr pairs, w2) \<Rightarrow>
                             finish e w2 ident vers t None (Children (keyBy pairs)) None))))"
| "constructProperties e w ps [] = (Inr [], w)"
| "constructProperties e w ps ((k, v) # rest) =
     (case find (\<lambda>p. name p = k) ps of
        None \<Rightarrow> (Inl TypeError, w)
      | Some propertyDef \<Rightarrow>
          (case UCABaseConstructor e w (ptype propertyDef) v (pversion propertyDef) of
             (Inl err, w1) \<Rightarrow> (Inl err, w1)
           | (Inr uca, w1) \<Rightarrow>
               (case constructProperties e w1 ps rest of
                  (Inl err, w2) \<Rightarrow> (Inl err, w2)
                | (Inr pairs, w2) \<Rightarrow> (Inr ((k, uca) # pairs), w2))))"
| "reconstructProperties e w ps [] ucaValue = (Inr ucaValue, w)"
| "reconstructProperties e w ps (c # rest) ucaValue =
     (case find (\<lambda>p. endsWith (ptype p) (propertyName c)) ps of
        None \<Rightarrow> (Inl TypeError, w)
      | Some p \<Rightarrow>
          (case UCABaseConstructor e w (ptype p) (JObj [(''attestableValue'', JStr (stringValue c))]) None of
             (Inl err, w1) \<Rightarrow> (Inl err, w1)
           | (Inr uca, w1) \<Rightarrow>
               reconstructProperties e w1 ps rest (AList.update (propertyName c) uca ucaValue)))"
  by pat_completeness auto


termination
  apply (relation "measure (\<lambda>x. case x of
      Inl (e, w, ident, v, ver) \<Rightarrow> 2 * weight v
    | Inr (Inl (e, w, ps, kvs)) \<Rightarrow> Suc (2 * sum_list (map (\<lambda>kv. weight (snd kv)) kvs))
    | Inr (Inr (e, w, ps, cs, acc)) \<Rightarrow> segmentsWeight cs)")
       apply (auto simp: segmentsWeight_parsed weight_entriesOf weight_pos segmentsWeight_Cons)
  done

declare UCABaseConstructor.simps [simp del]
declare getAttestableValue.simps [simp del]
declare getTypeNameF.simps [simp del]
declare resolveTypeF.simps [simp del]

section \<open>Invariants of instances\<close>

text \<open>
  An instance whose value is a primitive carries a salt, one whose value is a mapping
  of children carries none, and so on for every child.
\<close>

fun saltInvariant :: "uca \<Rightarrow> bool" where
  "saltInvariant (UCA ts i ident ver t v sa) =
     (case v of
        Raw x \<Rightarrow> sa \<noteq> None
      | Children kvs \<Rightarrow> sa = None \<and> (\<forall>kc \<in> set kvs. saltInvariant (snd kc)))"

text \<open>
  The salts of an instance: the salt of a leaf, and for a mapping of children the
  salts of each child under its key. \<open>childSalts\<close> looks the salts of a child up
  by its key, \<open>childCommitment\<close> its commitment.
\<close>

datatype saltTree = SaltLeaf "string option" | SaltNode "(string \<times> saltTree) list"

fun saltsOf :: "uca \<Rightarrow> saltTree" where
  "saltsOf (UCA ts i ident ver t v sa) =
     (case v of
        Raw x \<Rightarrow> SaltLeaf sa
      | Children kvs \<Rightarrow> SaltNode (map (\<lambda>(k, c). (k, saltsOf c)) kvs))"

definition childSalts :: "uca \<Rightarrow> string \<Rightarrow> saltTree option" where
  "childSalts u =
     (case uca_value u of
        Raw x \<Rightarrow> (\<lambda>k. None)
      | Children kvs \<Rightarrow> map_of (map (\<lambda>(k, c). (k, saltsOf c)) kvs))"

definition childCommitment :: "uca \<Rightarrow> string \<Rightarrow> string" where
  "childCommitment u k =
     (case uca_value u of
        Raw x \<Rightarrow> []
      | Children kvs \<Rightarrow>
          (case map_of kvs k of
             None \<Rightarrow> []
           | Some c \<Rightarrow> (case getAttestableValue c of Inl err \<Rightarrow> [] | Inr s \<Rightarrow> s)))"

text \<open>
  Two lists of children that go key by key, the children under the same key being
  related by \<open>Q\<close>: they have the same commitment, or they have the same commitment
  if they have the same salts.
\<close>

definition paired :: "(uca \<Rightarrow> uca \<Rightarrow> bool) \<Rightarrow> string \<times> uca \<Rightarrow> string \<times> uca \<Rightarrow> bool" where
  "paired Q kc kc' = (fst kc' = fst kc \<and> Q (snd kc) (snd kc'))"

definition committedAlike :: "uca \<Rightarrow> uca \<Rightarrow> bool" where
  "committedAlike u u' = (getAttestableValue u' = getAttestableValue u)"

definition saltedAlike :: "uca \<Rightarrow> uca \<Rightarrow> bool" where
  "saltedAlike u u' = (saltsOf u' = saltsOf u \<longrightarrow> getAttestableValue u' = getAttestableValue u)"

text \<open>
  What a construction may do to a definition of the registry. A type is concrete when
  it is an inline schema or a name that is no identifier of the registry; a
  definition is refined when it is left as it is, or when its type, a reference to
  another identifier, is replaced by a concrete type and nothing else changes.
\<close>

definition concreteType :: "string list \<Rightarrow> dtype \<Rightarrow> bool" where
  "concreteType ids t = (case t of TName s \<Rightarrow> s \<notin> set ids | TObject sch \<Rightarrow> True)"

definition refined :: "string list \<Rightarrow> defn \<Rightarrow> defn \<Rightarrow> bool" where
  "refined ids d d' =
     (d' = d \<or> (\<not> concreteType ids (type d) \<and> concreteType ids (type d') \<and> d' = d\<lparr>type := type d'\<rparr>))"

definition registryRefined :: "defn list \<Rightarrow> defn list \<Rightarrow> bool" where
  "registryRefined defs defs' = list_all2 (refined (validIdentifiers defs)) defs defs'"

text \<open>The name of a concrete type, as \<^verbatim>\<open>getTypeName\<close> reports it.\<close>

definition typeNameOf :: "dtype \<Rightarrow> string" where
  "typeNameOf t = (case t of TName s \<Rightarrow> s | TObject sch \<Rightarrow> ''Object'')"

text \<open>
  One assignment of line 121: the definition \<open>d0\<close> gets the type \<open>ct\<close>, every
  other definition stays.
\<close>

definition reassigned :: "defn \<Rightarrow> dtype \<Rightarrow> defn \<Rightarrow> defn \<Rightarrow> bool" where
  "reassigned d0 ct d d' = (d' = d \<or> (d = d0 \<and> d' = d0\<lparr>type := ct\<rparr>))"

text \<open>
  A registry after some constructions resolves as the registry before did: the
  definitions agree in every field but \<^verbatim>\<open>type\<close>, and where a type name or a
  concrete type was resolved before, the same one is resolved after.
\<close>

definition keepsResolution :: "defn list \<Rightarrow> defn list \<Rightarrow> bool" where
  "keepsResolution defs defs' =
     list_all2 (\<lambda>d d'. d'\<lparr>type := type d\<rparr> = d
        \<and> (\<forall>t. getTypeName defs d = Inr t \<longrightarrow> getTypeName defs' d' = Inr t)
        \<and> (\<forall>ct. resolveType defs d = Inr ct \<longrightarrow> resolveType defs' d' = Inr ct)) defs defs'"

text \<open>
  The inputs that the specification admits for an identifier and a version (4.3,
  modes B and C), as far as the code goes along. The identifier is registered, its
  definition resolves, and the value is no commitment. Then the value is either a
  primitive of the definition's type that satisfies the constraints as the
  specification words them, where a definition of a string declares no
  \<^verbatim>\<open>maximumLength\<close> (line 32 checks that bound against the wrong field); or it is
  a mapping for a composite definition with declared properties, which owns no
  \<^verbatim>\<open>length\<close> that makes it array-like, owns every required name with a truthy
  value, and in which every key is a declared property whose value is admitted for
  that property's own identifier and version.
\<close>

fun accepts :: "defn list \<Rightarrow> string \<Rightarrow> string option \<Rightarrow> jsval \<Rightarrow> bool" where
  "accepts defs ident ver v =
     (ident \<in> set (validIdentifiers defs) \<and> \<not> isAttestableValue v \<and>
      (case find (matches ident ver) defs of
         None \<Rightarrow> False
       | Some d \<Rightarrow>
           (case getTypeName defs d of
              Inl err \<Rightarrow> False
            | Inr t \<Rightarrow>
                (case resolveType defs d of
                   Inl err \<Rightarrow> False
                 | Inr ct \<Rightarrow>
                     if isValueOfType v t then
                       spec_satisfiesConstraints v t d \<and> (t = ''String'' \<longrightarrow> maximumLength d = None)
                     else
                       (case v of
                          JObj kvs \<Rightarrow>
                            propertiesOf ct \<noteq> [] \<and> arrayLength v = None \<and>
                            list_all (\<lambda>r. truthy (getProp v r)) (requiredOf ct) \<and>
                            (\<forall>kv \<in> set kvs.
                               case find (\<lambda>p. name p = fst kv) (propertiesOf ct) of
                                 None \<Rightarrow> False
                               | Some p \<Rightarrow> accepts defs (ptype p) (pversion p) (snd kv))
                        | _ \<Rightarrow> False)))))"

declare accepts.simps [simp del]

section \<open>Examples of definitions\<close>

text \<open>A definition with no constraint, to build the examples from.\<close>

definition plainDefinition :: "string \<Rightarrow> dtype \<Rightarrow> defn" where
  "plainDefinition i t =
     \<lparr>identifier = i, version = ''1'', type = t, pattern = None,
      minimumLength = None, maximumLength = None, minimum = None, maximum = None,
      exclusiveMinimum = None, exclusiveMaximum = None,
      credentialItem = False, attestable = False\<rparr>"

definition nameFirst :: defn where
  "nameFirst = plainDefinition ''ns:Person:name.first'' (TName ''String'')"

definition personAge :: defn where
  "personAge = (plainDefinition ''ns:Person:age'' (TName ''Number''))\<lparr>minimum := Some 0, maximum := Some 150\<rparr>"

text \<open>
  An environment to run the examples in: the hash of a string is its length in
  decimal digits, the \<open>n\<close>-th random word is \<open>n + 1\<close> letters long, the clock starts
  at 1000, and the primitive values inherit the members that every edition of the
  language gives them.
\<close>

definition demoEnv :: env where
  "demoEnv = \<lparr>sha256hex = (\<lambda>s. toDigits (length s)), wordWith = (\<lambda>n. replicate (Suc n) (CHR ''r'')),
     now = (\<lambda>n. 1000 + int n),
     primitiveMembers = (\<lambda>v. case v of
        JStr s \<Rightarrow> [''charAt'', ''charCodeAt'', ''concat'', ''indexOf'', ''lastIndexOf'', ''localeCompare'',
          ''match'', ''replace'', ''search'', ''slice'', ''split'', ''substring'', ''toLowerCase'',
          ''toLocaleLowerCase'', ''toUpperCase'', ''toLocaleUpperCase'', ''trim'']
      | JNum n \<Rightarrow> [''toFixed'', ''toExponential'', ''toPrecision'']
      | _ \<Rightarrow> [])\<rparr>"

definition nameLast :: defn where
  "nameLast = plainDefinition ''ns:Person:name.last'' (TName ''String'')"

definition personName :: defn where
  "personName = plainDefinition ''ns:Person:name''
     (TObject \<lparr>properties =
        [\<lparr>name = ''first'', ptype = ''ns:Person:name.first'', pversion = None\<rparr>,
         \<lparr>name = ''last'', ptype = ''ns:Person:name.last'', pversion = None\<rparr>],
        required = [''first'']\<rparr>)"

definition personYears :: defn where
  "personYears = plainDefinition ''ns:Person:years'' (TName ''ns:Person:age'')"

definition demoDefinitions :: "defn list" where
  "demoDefinitions = [personName, nameFirst, nameLast, personAge, personYears]"

definition demoWorld :: world where
  "demoWorld = \<lparr>definitions = demoDefinitions, draws = 0, ticks = 0\<rparr>"

definition demoAge :: uca where
  "demoAge = UCA (Some 1000) ''1:ns:Person:age:18'' ''ns:Person:age'' ''1'' ''Number''
     (Raw (JNum 42)) (Some ''1'')"

definition demoAgeRebuilt :: uca where
  "demoAgeRebuilt = UCA None ''1:ns:Person:age:18'' ''ns:Person:age'' ''1'' ''Number''
     (Raw (JStr ''00000042'')) (Some ''1'')"

definition personProfile :: defn where
  "personProfile = plainDefinition ''ns:Person:profile''
     (TObject \<lparr>properties =
        [\<lparr>name = ''age'', ptype = ''ns:Person:age'', pversion = None\<rparr>,
         \<lparr>name = ''name'', ptype = ''ns:Person:name'', pversion = None\<rparr>],
        required = [''age'']\<rparr>)"

definition profileWorld :: world where
  "profileWorld = \<lparr>definitions = demoDefinitions @ [personProfile], draws = 0, ticks = 0\<rparr>"

definition boxSize :: defn where
  "boxSize = plainDefinition ''ns:Box:size''
     (TObject \<lparr>properties =
        [\<lparr>name = ''length'', ptype = ''ns:Person:age'', pversion = None\<rparr>,
         \<lparr>name = ''width'', ptype = ''ns:Person:age'', pversion = None\<rparr>],
        required = [''constructor'']\<rparr>)"

definition boxWorld :: world where
  "boxWorld = \<lparr>definitions = demoDefinitions @ [boxSize], draws = 0, ticks = 0\<rparr>"

text \<open>
  A second environment, whose random source yields in its third and fourth draw what
  that of \<open>demoEnv\<close> yields in its second and first, and the instances that the two
  constructions of \<^verbatim>\<open>ns:Person:name\<close> below return.
\<close>

definition permutedEnv :: env where
  "permutedEnv = demoEnv\<lparr>wordWith := (\<lambda>n. replicate (4 - n) (CHR ''r''))\<rparr>"


definition demoName :: uca where
  "demoName = UCA None ''1:ns:Person:name:31'' ''ns:Person:name'' ''1'' ''Object''
     (Children
        [(''first'', UCA (Some 1000) ''1:ns:Person:name.first:15'' ''ns:Person:name.first'' ''1'' ''String''
            (Raw (JStr ''Ann'')) (Some ''1'')),
         (''last'', UCA (Some 1001) ''1:ns:Person:name.last:14'' ''ns:Person:name.last'' ''1'' ''String''
            (Raw (JStr ''Lee'')) (Some ''2''))]) None"

definition demoNamePermuted :: uca where
  "demoNamePermuted = UCA None ''1:ns:Person:name:31'' ''ns:Person:name'' ''1'' ''Object''
     (Children
        [(''last'', UCA (Some 1002) ''1:ns:Person:name.last:14'' ''ns:Person:name.last'' ''1'' ''String''
            (Raw (JStr ''Lee'')) (Some ''2'')),
         (''first'', UCA (Some 1003) ''1:ns:Person:name.first:15'' ''ns:Person:name.first'' ''1'' ''String''
            (Raw (JStr ''Ann'')) (Some ''1''))]) None"

lemmas demo_defs = demoEnv_def demoWorld_def demoDefinitions_def personName_def nameFirst_def nameLast_def
  personAge_def personYears_def plainDefinition_def

section \<open>Properties of the validator\<close>

text \<open>
  C3. The string case is meant to accept a value iff the pattern matches and the
  length lies between \<^verbatim>\<open>minimumLength\<close> and \<^verbatim>\<open>maximumLength\<close>. Line 32 compares
  the length with \<^verbatim>\<open>minimumLength\<close> where it should read \<^verbatim>\<open>maximumLength\<close>: a
  definition with \<^verbatim>\<open>maximumLength = 5\<close> and no minimum rejects the three-character
  string \<^verbatim>\<open>"Ann"\<close>, which is within the declared maximum.
\<close>

theorem isValid_maximumLength_rejects_short_string:
  "isValid (JStr ''Ann'') ''String'' (nameFirst\<lparr>maximumLength := Some 5\<rparr>) = False"
  by (simp add: isValid_def nameFirst_def plainDefinition_def isSet_def le_bound_def)

text \<open>
  C7. For a number, \<open>isValid\<close> is the conjunction of the two bounds as the
  specification words them. A value equal to \<^verbatim>\<open>minimum\<close> passes the lower bound
  iff \<^verbatim>\<open>exclusiveMinimum\<close> is not \<^verbatim>\<open>true\<close>, a value equal to \<^verbatim>\<open>maximum\<close> passes
  the upper bound iff \<^verbatim>\<open>exclusiveMaximum\<close> is not \<^verbatim>\<open>true\<close>, and an absent bound is
  always passed.
\<close>

theorem isValid_Number_bounds:
  "(isValid (JNum v) ''Number'' d \<longleftrightarrow> spec_respectsMinimum d v \<and> spec_respectsMaximum d v)
   \<and> (spec_respectsMinimum (d\<lparr>minimum := Some v\<rparr>) v \<longleftrightarrow> exclusiveMinimum d \<noteq> Some True)
   \<and> (spec_respectsMaximum (d\<lparr>maximum := Some v\<rparr>) v \<longleftrightarrow> exclusiveMaximum d \<noteq> Some True)
   \<and> spec_respectsMinimum (d\<lparr>minimum := None\<rparr>) v
   \<and> spec_respectsMaximum (d\<lparr>maximum := None\<rparr>) v"
proof -
  have valid: "isValid (JNum v) ''Number'' d \<longleftrightarrow> spec_respectsMinimum d v \<and> spec_respectsMaximum d v"
    by (cases "minimum d"; cases "maximum d"; cases "exclusiveMinimum d"; cases "exclusiveMaximum d")
       (auto simp: isValid_def spec_respectsMinimum_def spec_respectsMaximum_def isOn_def
          gt_bound_def ge_bound_def lt_bound_def le_bound_def)
  have lower: "spec_respectsMinimum (d\<lparr>minimum := Some v\<rparr>) v \<longleftrightarrow> exclusiveMinimum d \<noteq> Some True"
    by (simp add: spec_respectsMinimum_def)
  have upper: "spec_respectsMaximum (d\<lparr>maximum := Some v\<rparr>) v \<longleftrightarrow> exclusiveMaximum d \<noteq> Some True"
    by (simp add: spec_respectsMaximum_def)
  show ?thesis
    using valid lower upper by (simp add: spec_respectsMinimum_def spec_respectsMaximum_def)
qed

theorem isValid_Number_bounds_witness:
  "isValid (JNum 0) ''Number'' personAge \<and> isValid (JNum 150) ''Number'' personAge
   \<and> \<not> isValid (JNum 0) ''Number'' (personAge\<lparr>exclusiveMinimum := Some True\<rparr>)
   \<and> \<not> isValid (JNum 150) ''Number'' (personAge\<lparr>exclusiveMaximum := Some True\<rparr>)"
  using isValid_Number_bounds [of 0 personAge] isValid_Number_bounds [of 150 personAge]
    isValid_Number_bounds [of 0 "personAge\<lparr>exclusiveMinimum := Some True\<rparr>"]
    isValid_Number_bounds [of 150 "personAge\<lparr>exclusiveMaximum := Some True\<rparr>"]
  by (simp add: personAge_def plainDefinition_def spec_respectsMinimum_def spec_respectsMaximum_def)

section \<open>Properties of the parser\<close>

lemma not_word_colon: "\<not> isWordChar (CHR '':'')"
  by (simp add: isWordChar_def)

lemma not_word_pipe: "\<not> isWordChar (CHR ''|'')"
  by (simp add: isWordChar_def)

lemma takeWhile_word_colon:
  "list_all isWordChar p \<Longrightarrow> takeWhile isWordChar (p @ CHR '':'' # rest) = p"
  by (simp add: takeWhile_append2 list_all_iff not_word_colon)

lemma dropWhile_word_colon:
  "list_all isWordChar p \<Longrightarrow> dropWhile isWordChar (p @ CHR '':'' # rest) = CHR '':'' # rest"
  by (simp add: dropWhile_append2 list_all_iff not_word_colon)

lemma attestableValueRegex_urn:
  assumes "list_all isWordChar p" and "list_all isWordChar sa"
  shows "attestableValueRegex (urn p sa v) = Some (p, sa, v)"
proof -
  have "urn p sa v = ''urn:'' @ (p @ CHR '':'' # (sa @ CHR '':'' # v))"
    by (simp add: urn_def)
  then show ?thesis
    using assms
    by (simp add: attestableValueRegex_def takeWhile_word_colon dropWhile_word_colon del: append_Cons)
qed

lemma attestableValueRegex_Some:
  assumes "attestableValueRegex seg = Some (p, sa, v)"
  shows "urnSegment seg p sa v"
proof -
  let ?r1 = "drop 4 seg"
  from assms have head: "take 4 seg = ''urn:''"
    by (auto simp: attestableValueRegex_def split: if_splits)
  from assms head obtain r2 where d1: "dropWhile isWordChar ?r1 = CHR '':'' # r2"
    and p: "p = takeWhile isWordChar ?r1"
    and d2: "dropWhile isWordChar r2 = CHR '':'' # v"
    and sa: "sa = takeWhile isWordChar r2"
    by (auto simp: attestableValueRegex_def Let_def split: list.splits if_splits)
  have "seg = take 4 seg @ ?r1"
    by simp
  also have "?r1 = takeWhile isWordChar ?r1 @ dropWhile isWordChar ?r1"
    by simp
  also have "r2 = takeWhile isWordChar r2 @ dropWhile isWordChar r2" for r2
    by simp
  then have "dropWhile isWordChar ?r1 = CHR '':'' # (sa @ CHR '':'' # v)"
    using d1 d2 sa by metis
  finally have "seg = ''urn:'' @ p @ '':'' @ sa @ '':'' @ v"
    using head p by simp
  moreover have "list_all isWordChar p" and "list_all isWordChar sa"
    using p sa by (auto simp: list_all_iff dest: set_takeWhileD)
  ultimately show ?thesis
    by (simp add: urnSegment_def)
qed

lemma attestableValueRegex_iff:
  "attestableValueRegex seg = Some (p, sa, v) \<longleftrightarrow> urnSegment seg p sa v"
proof
  assume "attestableValueRegex seg = Some (p, sa, v)"
  then show "urnSegment seg p sa v"
    by (rule attestableValueRegex_Some)
next
  assume "urnSegment seg p sa v"
  then have "seg = urn p sa v" and "list_all isWordChar p" and "list_all isWordChar sa"
    by (simp_all add: urnSegment_def urn_def)
  then show "attestableValueRegex seg = Some (p, sa, v)"
    by (simp add: attestableValueRegex_urn)
qed

lemma isSegment_iff: "isSegment seg \<longleftrightarrow> attestableValueRegex seg \<noteq> None"
proof -
  have "attestableValueRegex seg \<noteq> None \<longleftrightarrow> (\<exists>p sa v. attestableValueRegex seg = Some (p, sa, v))"
    by auto
  then show ?thesis
    by (simp add: isSegment_def attestableValueRegex_iff)
qed

lemma spec_segment_iff:
  "spec_segment seg \<longleftrightarrow>
     (case attestableValueRegex seg of
        None \<Rightarrow> False
      | Some (p, sa, v) \<Rightarrow> p \<noteq> [] \<and> sa \<noteq> [] \<and> CHR ''|'' \<notin> set v)"
proof -
  have "spec_segment seg \<longleftrightarrow>
          (\<exists>p sa v. urnSegment seg p sa v \<and> p \<noteq> [] \<and> sa \<noteq> [] \<and> CHR ''|'' \<notin> set v)"
    unfolding spec_segment_def urnSegment_def by blast
  also have "\<dots> \<longleftrightarrow>
          (\<exists>p sa v. attestableValueRegex seg = Some (p, sa, v) \<and> p \<noteq> [] \<and> sa \<noteq> [] \<and> CHR ''|'' \<notin> set v)"
    by (simp only: attestableValueRegex_iff)
  also have "\<dots> \<longleftrightarrow>
          (case attestableValueRegex seg of
             None \<Rightarrow> False
           | Some (p, sa, v) \<Rightarrow> p \<noteq> [] \<and> sa \<noteq> [] \<and> CHR ''|'' \<notin> set v)"
    by (cases "attestableValueRegex seg") auto
  finally show ?thesis .
qed

lemma eachSegment_matching: "map stringValue (eachSegment ss) = filter isSegment ss"
  by (induction ss) (auto simp: isSegment_iff split: option.splits)

lemma eachSegment_components:
  "list_all (\<lambda>c. urnSegment (stringValue c) (propertyName c) (salt c) (valueStr c)) (eachSegment ss)"
  by (induction ss) (auto simp: attestableValueRegex_iff [symmetric] split: option.splits)

text \<open>
  C6, as the code has it. Parsing splits the commitment on \<^verbatim>\<open>|\<close> and keeps the
  segments that match the grammar of line 82, in which the property name and the salt
  may be empty. It returns them iff their number is the split count or the split
  count minus one, and throws \<^verbatim>\<open>Invalid attestableValue\<close> in every other case. The
  components that it returns are the matching segments in their order, each with the
  property name, the salt and the value that the grammar reads in the segment.
\<close>

theorem parseAttestableValue_tolerance:
  assumes "v \<noteq> JUndefined" and "v \<noteq> JNull"
  shows "((\<exists>values. parseAttestableValue v = Inr values) \<longleftrightarrow>
      length (matchingSegments v) = length (splitPipes v)
      \<or> length (matchingSegments v) + 1 = length (splitPipes v))
   \<and> (parseAttestableValue v = Inl MalformedCommitment \<longleftrightarrow>
      \<not> (length (matchingSegments v) = length (splitPipes v)
         \<or> length (matchingSegments v) + 1 = length (splitPipes v)))
   \<and> (case parseAttestableValue v of
        Inr values \<Rightarrow>
          map stringValue values = matchingSegments v
          \<and> list_all (\<lambda>c. urnSegment (stringValue c) (propertyName c) (salt c) (valueStr c)) values
      | Inl e \<Rightarrow> e = MalformedCommitment)"
proof -
  have strs: "map stringValue (eachSegment (splitPipes v)) = matchingSegments v"
    by (simp add: eachSegment_matching matchingSegments_def)
  then have len: "length (eachSegment (splitPipes v)) = length (matchingSegments v)"
    by (metis length_map)
  show ?thesis
    using assms len strs eachSegment_components [of "splitPipes v"]
    by (auto simp: parseAttestableValue_def Let_def)
qed

theorem parseAttestableValue_tolerance_witness:
  "parseAttestableValue (JObj [(''attestableValue'', JStr ''urn:first:7f:Ann|urn:last:c2:Lee|'')])
     = Inr [\<lparr>propertyName = ''first'', salt = ''7f'', valueStr = ''Ann'', stringValue = ''urn:first:7f:Ann''\<rparr>,
            \<lparr>propertyName = ''last'', salt = ''c2'', valueStr = ''Lee'', stringValue = ''urn:last:c2:Lee''\<rparr>]
   \<and> matchingSegments (JObj [(''attestableValue'', JStr ''urn:first:7f:Ann|urn:last:c2:Lee|'')])
       = [''urn:first:7f:Ann'', ''urn:last:c2:Lee'']
   \<and> length (splitPipes (JObj [(''attestableValue'', JStr ''urn:first:7f:Ann|urn:last:c2:Lee|'')])) = 3
   \<and> parseAttestableValue (JObj [(''attestableValue'', JStr ''urn:first:7f:Ann|x|y'')])
       = Inl MalformedCommitment
   \<and> length (matchingSegments (JObj [(''attestableValue'', JStr ''urn:first:7f:Ann|x|y'')])) = 1"
proof -
  let ?good = "JObj [(''attestableValue'', JStr ''urn:first:7f:Ann|urn:last:c2:Lee|'')]"
  let ?bad = "JObj [(''attestableValue'', JStr ''urn:first:7f:Ann|x|y'')]"
  have good: "parseAttestableValue ?good
     = Inr [\<lparr>propertyName = ''first'', salt = ''7f'', valueStr = ''Ann'', stringValue = ''urn:first:7f:Ann''\<rparr>,
            \<lparr>propertyName = ''last'', salt = ''c2'', valueStr = ''Lee'', stringValue = ''urn:last:c2:Lee''\<rparr>]"
    by code_simp
  have split: "length (splitPipes ?good) = 3" "length (splitPipes ?bad) = 3"
    by code_simp+
  have bad: "parseAttestableValue ?bad = Inl MalformedCommitment"
    by code_simp
  from parseAttestableValue_tolerance [of ?good] good
  have "matchingSegments ?good = [''urn:first:7f:Ann'', ''urn:last:c2:Lee'']"
    by simp
  moreover from parseAttestableValue_tolerance [of ?bad] bad split
  have "length (matchingSegments ?bad) = 1 \<or> length (matchingSegments ?bad) \<noteq> 3"
    by simp
  moreover have "matchingSegments ?bad = filter isSegment [''urn:first:7f:Ann'', ''x'', ''y'']"
    by (simp add: matchingSegments_def splitPipes_def)
  moreover have "attestableValueRegex ''urn:first:7f:Ann'' \<noteq> None" "attestableValueRegex ''x'' = None"
    "attestableValueRegex ''y'' = None"
    by code_simp+
  ultimately show ?thesis
    using good split bad by (simp add: isSegment_iff)
qed

text \<open>
  The claim read with the grammar of the specification fails, because line 82 has
  \<^verbatim>\<open>\w*\<close> where the specification has \<^verbatim>\<open>\w+\<close>. The commitment
  \<^verbatim>\<open>urn:::a|x\<close> splits into two segments, neither of which matches the grammar of
  the specification, and it is parsed into one component with an empty name and an
  empty salt.
\<close>

theorem empty_name_and_salt_accepted:
  "splitPipes (JObj [(''attestableValue'', JStr ''urn:::a|x'')]) = [''urn:::a'', ''x'']
   \<and> filter spec_segment [''urn:::a'', ''x''] = []
   \<and> parseAttestableValue (JObj [(''attestableValue'', JStr ''urn:::a|x'')])
       = Inr [\<lparr>propertyName = [], salt = [], valueStr = ''a'', stringValue = ''urn:::a''\<rparr>]"
proof -
  have "attestableValueRegex ''urn:::a'' = Some ([], [], ''a'')"
    by code_simp
  moreover have "attestableValueRegex ''x'' = None"
    by code_simp
  ultimately have "filter spec_segment [''urn:::a'', ''x''] = []"
    by (simp add: spec_segment_iff)
  moreover have "splitPipes (JObj [(''attestableValue'', JStr ''urn:::a|x'')]) = [''urn:::a'', ''x'']"
    by code_simp
  moreover have "parseAttestableValue (JObj [(''attestableValue'', JStr ''urn:::a|x'')])
       = Inr [\<lparr>propertyName = [], salt = [], valueStr = ''a'', stringValue = ''urn:::a''\<rparr>]"
    by code_simp
  ultimately show ?thesis
    by simp
qed

section \<open>Successful constructions\<close>

lemma finish_Inr:
  "finish e w ident vers t ts v sa = (Inr u, w') \<Longrightarrow>
     w' = w \<and> (\<exists>s. getAttestableValue (UCA ts [] ident vers t v sa) = Inr s
        \<and> u = UCA ts (vers @ '':'' @ ident @ '':'' @ sha256hex e s) ident vers t v sa)"
  by (auto simp: finish_def split: sum.splits)

lemma UCABaseConstructor_success:
  assumes "UCABaseConstructor e w ident v ver = (Inr u, w')"
  obtains
    (leaf) d vers t w1 c where
      "resolveDefinition w ident ver = (Inr (d, vers, t), w1)"
      "isAttestableValue v" "parseAttestableValue v = Inr [c]"
      "finish e w1 ident vers t None (Raw (JStr (valueStr c))) (Some (salt c)) = (Inr u, w')"
  | (rebuilt) d vers t w1 parsed ucaValue w2 where
      "resolveDefinition w ident ver = (Inr (d, vers, t), w1)"
      "isAttestableValue v" "parseAttestableValue v = Inr parsed" "length parsed \<noteq> 1"
      "reconstructProperties e w1 (propertiesOf (type d)) parsed [] = (Inr ucaValue, w2)"
      "finish e w2 ident vers t None (Children ucaValue) None = (Inr u, w')"
  | (raw) d vers t w1 where
      "resolveDefinition w ident ver = (Inr (d, vers, t), w1)"
      "\<not> isAttestableValue v" "isValueOfType v t" "isValid v t d"
      "finish e (w1\<lparr>ticks := Suc (ticks w1), draws := Suc (draws w1)\<rparr>) ident vers t
         (Some (now e (ticks w1))) (Raw v) (Some (sha256hex e (wordWith e (draws w1)))) = (Inr u, w')"
  | (nested) d vers t w1 kvs pairs w2 where
      "resolveDefinition w ident ver = (Inr (d, vers, t), w1)"
      "\<not> isAttestableValue v" "\<not> isValueOfType v t" "propertiesOf (type d) \<noteq> []"
      "hasRequireds e (type d) v = Inr True" "entriesOf v = Inr kvs"
      "constructProperties e w1 (propertiesOf (type d)) kvs = (Inr pairs, w2)"
      "finish e w2 ident vers t None (Children (keyBy pairs)) None = (Inr u, w')"
proof -
  obtain r w1 where res: "resolveDefinition w ident ver = (r, w1)"
    by (cases "resolveDefinition w ident ver")
  show thesis
  proof (cases r)
    case (Inl err)
    then show thesis using assms res by (simp add: UCABaseConstructor.simps)
  next
    case (Inr dvt)
    obtain d vers t where dvt: "dvt = (d, vers, t)" by (cases dvt)
    note r = res [unfolded Inr dvt]
    show thesis
    proof (cases "isAttestableValue v")
      case True
      then obtain parsed where p: "parseAttestableValue v = Inr parsed"
        using assms r by (cases "parseAttestableValue v") (auto simp: UCABaseConstructor.simps)
      show thesis
      proof (cases "length parsed = 1")
        case one: True
        then obtain c where c: "parsed = [c]" by (cases parsed) auto
        have fin: "finish e w1 ident vers t None (Raw (JStr (valueStr c))) (Some (salt c)) = (Inr u, w')"
          using assms r True p c by (simp add: UCABaseConstructor.simps)
        show thesis by (rule leaf [OF r True p [unfolded c] fin])
      next
        case False
        obtain r2 w2 where rp: "reconstructProperties e w1 (propertiesOf (type d)) parsed [] = (r2, w2)"
          by (cases "reconstructProperties e w1 (propertiesOf (type d)) parsed []")
        have body: "(case r2 of Inl err \<Rightarrow> (Inl err, w2)
                     | Inr ucaValue \<Rightarrow> finish e w2 ident vers t None (Children ucaValue) None) = (Inr u, w')"
          using assms r True p False rp by (simp add: UCABaseConstructor.simps)
        then obtain ucaValue where uv: "r2 = Inr ucaValue"
          and fin: "finish e w2 ident vers t None (Children ucaValue) None = (Inr u, w')"
          by (cases r2) auto
        show thesis by (rule rebuilt [OF r True p False rp [unfolded uv] fin])
      qed
    next
      case False
      show thesis
      proof (cases "isValueOfType v t")
        case True
        have "isValid v t d \<and> finish e (w1\<lparr>ticks := Suc (ticks w1), draws := Suc (draws w1)\<rparr>) ident vers t
                      (Some (now e (ticks w1))) (Raw v) (Some (sha256hex e (wordWith e (draws w1)))) = (Inr u, w')"
          using assms r False True by (simp add: UCABaseConstructor.simps Let_def split: if_splits)
        then show thesis using raw [OF r False True] by simp
      next
        case nt: False
        have body: "(if propertiesOf (type d) = [] then (Inl (InvalidValue ident), w1)
          else
            (case hasRequireds e (type d) v of
               Inl err \<Rightarrow> (Inl err, w1)
             | Inr has \<Rightarrow>
                 if \<not> has then (Inl (MissingRequiredField ident), w1)
                 else
                   (case entriesOf v of
                      Inl err \<Rightarrow> (Inl err, w1)
                    | Inr kvs \<Rightarrow>
                        (case constructProperties e w1 (propertiesOf (type d)) kvs of
                           (Inl err, w2) \<Rightarrow> (Inl err, w2)
                         | (Inr pairs, w2) \<Rightarrow>
                             finish e w2 ident vers t None (Children (keyBy pairs)) None)))) = (Inr u, w')"
          using assms r False nt by (simp add: UCABaseConstructor.simps)
        then have props: "propertiesOf (type d) \<noteq> []" by (auto split: if_splits)
        from body props have has: "hasRequireds e (type d) v = Inr True"
          by (cases "hasRequireds e (type d) v") (auto split: if_splits)
        from body props has obtain kvs where kvs: "entriesOf v = Inr kvs"
          by (cases "entriesOf v") auto
        obtain r2 w2 where cp: "constructProperties e w1 (propertiesOf (type d)) kvs = (r2, w2)"
          by (cases "constructProperties e w1 (propertiesOf (type d)) kvs")
        from body props has kvs cp obtain pairs where pairs: "r2 = Inr pairs"
          and fin: "finish e w2 ident vers t None (Children (keyBy pairs)) None = (Inr u, w')"
          by (cases r2) auto
        show thesis by (rule nested [OF r False nt props has kvs cp [unfolded pairs] fin])
      qed
    qed
  qed
qed

section \<open>Unknown identifiers and versions\<close>

text \<open>
  C8. An identifier that no definition of the registry carries makes the constructor
  throw \<^verbatim>\<open>`${identifier} is not defined`\<close>, whatever the value and the version:
  no instance is built, and the registry, the random source and the clock are left as
  they were.
\<close>

theorem unknown_identifier:
  "ident \<notin> set (validIdentifiers (definitions w)) \<Longrightarrow>
     UCABaseConstructor e w ident v ver = (Inl (UnknownIdentifier ident), w)"
  by (simp add: UCABaseConstructor.simps resolveDefinition_def)

theorem unknown_identifier_witness:
  "''nonexistent:id'' \<notin> set (validIdentifiers (definitions demoWorld))
   \<and> UCABaseConstructor demoEnv demoWorld ''nonexistent:id'' (JNum 1) None
       = (Inl (UnknownIdentifier ''nonexistent:id''), demoWorld)"
proof -
  have absent: "''nonexistent:id'' \<notin> set (validIdentifiers (definitions demoWorld))"
    by (simp add: demo_defs validIdentifiers_def)
  show ?thesis
    using absent unknown_identifier [OF absent, of demoEnv "JNum 1" None] by simp
qed

text \<open>
  \<^verbatim>\<open>version ? _.find(definitions, { identifier, version }) : _.find(definitions, { identifier })\<close>,
  line 116, and \<^verbatim>\<open>version || definition.version\<close>, line 117: a version that is
  \<^verbatim>\<open>undefined\<close> or the empty string is falsy and counts as not given.

  C10, as the code has it. With an identifier of the registry and an explicit version
  that is not the empty string and that no definition with this identifier carries,
  \<^verbatim>\<open>_.find\<close> returns \<^verbatim>\<open>undefined\<close> and \<^verbatim>\<open>getTypeName(definition)\<close> of line
  119 reads a property of it: the call throws a \<^verbatim>\<open>TypeError\<close>, returns no instance
  and leaves the registry, the random source and the clock as they were.
\<close>

theorem unmatched_version:
  assumes "ident \<in> set (validIdentifiers (definitions w))"
    and "ver = Some v0" and "v0 \<noteq> []"
    and "\<forall>d \<in> set (definitions w). \<not> (identifier d = ident \<and> version d = v0)"
  shows "UCABaseConstructor e w ident v ver = (Inl TypeError, w)"
proof -
  have "find (matches ident ver) (definitions w) = None"
    using assms(2-4) by (auto simp: find_None_iff matches_def given_def)
  then show ?thesis
    using assms(1) by (simp add: UCABaseConstructor.simps resolveDefinition_def)
qed


theorem unmatched_version_witness:
  "''ns:Person:age'' \<in> set (validIdentifiers (definitions demoWorld))
   \<and> UCABaseConstructor demoEnv demoWorld ''ns:Person:age'' (JNum 42) (Some ''2'') = (Inl TypeError, demoWorld)"
proof -
  have present: "''ns:Person:age'' \<in> set (validIdentifiers (definitions demoWorld))"
    by (simp add: demo_defs validIdentifiers_def)
  have none: "\<forall>d \<in> set (definitions demoWorld). \<not> (identifier d = ''ns:Person:age'' \<and> version d = ''2'')"
    by (simp add: demo_defs)
  show ?thesis
    using present unmatched_version [OF present refl _ none, of demoEnv "JNum 42"] by simp
qed

text \<open>
  The claim as stated, for every explicit version string, fails on the empty string:
  no definition of the registry has the version \<^verbatim>\<open>""\<close>, and the construction with
  that version succeeds, as the one without a version does.
\<close>

theorem empty_version_is_no_version:
  "''ns:Person:age'' \<in> set (validIdentifiers (definitions demoWorld))
   \<and> [] \<notin> set (map version (definitions demoWorld))
   \<and> fst (UCABaseConstructor demoEnv demoWorld ''ns:Person:age'' (JNum 42) (Some [])) = Inr demoAge"
proof -
  have "''ns:Person:age'' \<in> set (validIdentifiers (definitions demoWorld))"
    by (simp add: demo_defs validIdentifiers_def)
  moreover have "[] \<notin> set (map version (definitions demoWorld))"
    by (simp add: demo_defs)
  moreover have "fst (UCABaseConstructor demoEnv demoWorld ''ns:Person:age'' (JNum 42) (Some [])) = Inr demoAge"
    by code_simp
  ultimately show ?thesis
    by simp
qed

section \<open>Salts\<close>

lemma set_update_cases: "x \<in> set (AList.update k v al) \<Longrightarrow> x = (k, v) \<or> x \<in> set al"
  by (induction al) (auto split: if_splits)

lemma keyBy_preserves:
  assumes "\<forall>kc \<in> set pairs. P (snd kc)"
  shows "\<forall>kc \<in> set (keyBy pairs). P (snd kc)"
proof -
  have "\<forall>kc \<in> set acc. P (snd kc) \<Longrightarrow> \<forall>kc \<in> set pairs. P (snd kc) \<Longrightarrow>
        \<forall>kc \<in> set (foldl (\<lambda>obj (k, u). AList.update k u obj) acc pairs). P (snd kc)" for acc
  proof (induction pairs arbitrary: acc)
    case Nil
    then show ?case by simp
  next
    case (Cons p pairs)
    obtain k u where p: "p = (k, u)" by (cases p)
    have "\<forall>kc \<in> set (AList.update k u acc). P (snd kc)"
      using Cons.prems p by (auto dest: set_update_cases)
    then show ?case using Cons.IH [of "AList.update k u acc"] Cons.prems p by simp
  qed
  from this [of "[]"] assms show ?thesis by (simp add: keyBy_def)
qed

lemma constructProperties_Cons_success:
  assumes "constructProperties e w ps ((k, v) # rest) = (Inr pairs, w')"
  obtains p uca w1 pairs' where
    "find (\<lambda>p. name p = k) ps = Some p"
    "UCABaseConstructor e w (ptype p) v (pversion p) = (Inr uca, w1)"
    "constructProperties e w1 ps rest = (Inr pairs', w')"
    "pairs = (k, uca) # pairs'"
  using assms by (auto simp: UCABaseConstructor.simps split: option.splits prod.splits sum.splits)

lemma reconstructProperties_Cons_success:
  assumes "reconstructProperties e w ps (c # rest) acc = (Inr res, w')"
  obtains p uca w1 where
    "find (\<lambda>p. endsWith (ptype p) (propertyName c)) ps = Some p"
    "UCABaseConstructor e w (ptype p) (JObj [(''attestableValue'', JStr (stringValue c))]) None = (Inr uca, w1)"
    "reconstructProperties e w1 ps rest (AList.update (propertyName c) uca acc) = (Inr res, w')"
  using assms by (auto simp: UCABaseConstructor.simps split: option.splits prod.splits sum.splits)

lemma salt_invariant_all:
  "UCABaseConstructor e w ident v ver = (Inr u, w') \<Longrightarrow> saltInvariant u"
  "constructProperties e w ps kvs = (Inr pairs, w') \<Longrightarrow> \<forall>kc \<in> set pairs. saltInvariant (snd kc)"
  "reconstructProperties e w ps cs acc = (Inr res, w') \<Longrightarrow>
     \<forall>kc \<in> set acc. saltInvariant (snd kc) \<Longrightarrow> \<forall>kc \<in> set res. saltInvariant (snd kc)"
proof (induction e w ident v ver and e w ps kvs and e w ps cs acc
    arbitrary: u w' and pairs w' and res w'
    rule: UCABaseConstructor_constructProperties_reconstructProperties.induct)
  case (1 e w ident v ver)
  from "1.prems" show ?case
  proof (cases rule: UCABaseConstructor_success)
    case (leaf d vers t w1 c)
    then show ?thesis by (auto dest!: finish_Inr)
  next
    case (rebuilt d vers t w1 parsed ucaValue w2)
    have "\<forall>kc \<in> set ucaValue. saltInvariant (snd kc)"
      using "1.IH"(1) [OF rebuilt(1) [symmetric] refl refl refl rebuilt(2,3,4) rebuilt(5)] by simp
    then show ?thesis using rebuilt(6) by (auto dest!: finish_Inr)
  next
    case (raw d vers t w1)
    then show ?thesis by (auto dest!: finish_Inr)
  next
    case (nested d vers t w1 kvs pairs w2)
    have "\<forall>kc \<in> set pairs. saltInvariant (snd kc)"
      using "1.IH"(2) [OF nested(1) [symmetric] refl refl refl nested(2,3,4,5) _ nested(6,7)] by simp
    then have "\<forall>kc \<in> set (keyBy pairs). saltInvariant (snd kc)"
      by (rule keyBy_preserves)
    then show ?thesis using nested(8) by (auto dest!: finish_Inr)
  qed
next
  case (2 e w ps)
  then show ?case by simp
next
  case (3 e w ps k v rest)
  from "3.prems" obtain p uca w1 pairs' where
    f: "find (\<lambda>p. name p = k) ps = Some p"
    and c: "UCABaseConstructor e w (ptype p) v (pversion p) = (Inr uca, w1)"
    and r: "constructProperties e w1 ps rest = (Inr pairs', w')"
    and pairs: "pairs = (k, uca) # pairs'"
    by (rule constructProperties_Cons_success)
  show ?case
    using "3.IH"(1) [OF f c] "3.IH"(2) [OF f c [symmetric] refl r] pairs by simp
next
  case (4 e w ps ucaValue)
  then show ?case by simp
next
  case (5 e w ps c rest ucaValue)
  from "5.prems"(1) obtain p uca w1 where
    f: "find (\<lambda>p. endsWith (ptype p) (propertyName c)) ps = Some p"
    and c: "UCABaseConstructor e w (ptype p) (JObj [(''attestableValue'', JStr (stringValue c))]) None = (Inr uca, w1)"
    and r: "reconstructProperties e w1 ps rest (AList.update (propertyName c) uca ucaValue) = (Inr res, w')"
    by (rule reconstructProperties_Cons_success)
  have "saltInvariant uca" using "5.IH"(1) [OF f c] .
  then have "\<forall>kc \<in> set (AList.update (propertyName c) uca ucaValue). saltInvariant (snd kc)"
    using "5.prems"(2) by (auto dest: set_update_cases)
  then show ?case using "5.IH"(2) [OF f c [symmetric] refl r] by simp
qed

text \<open>
  C9, as the code has it. Every instance of a successfully constructed tree whose
  value is a primitive (built from a raw value, or from a commitment that parses to
  exactly one component) carries a salt; an instance whose value is a mapping of
  children (built from a nested object, or from a commitment with no or several
  components) carries none. The salt of a leaf rebuilt from a commitment is the salt
  of the parsed component, and its value the component's value; nothing is drawn.
\<close>

theorem salt_presence:
  assumes "UCABaseConstructor e w ident v ver = (Inr u, w')"
  shows "saltInvariant u
    \<and> (\<forall>c. isAttestableValue v \<longrightarrow> parseAttestableValue v = Inr [c] \<longrightarrow>
          uca_salt u = Some (salt c) \<and> uca_value u = Raw (JStr (valueStr c)))"
proof -
  have "saltInvariant u"
    using assms by (rule salt_invariant_all(1))
  moreover have "uca_salt u = Some (salt c) \<and> uca_value u = Raw (JStr (valueStr c))"
    if "isAttestableValue v" and "parseAttestableValue v = Inr [c]" for c
    using assms
  proof (cases rule: UCABaseConstructor_success)
    case (leaf d vers t w1 c')
    then show ?thesis using that by (auto dest!: finish_Inr)
  next
    case (rebuilt d vers t w1 parsed ucaValue w2)
    then show ?thesis using that by auto
  next
    case (raw d vers t w1)
    then show ?thesis using that by simp
  next
    case (nested d vers t w1 kvs pairs w2)
    then show ?thesis using that by simp
  qed
  ultimately show ?thesis by blast
qed

theorem salt_presence_witness:
  "fst (UCABaseConstructor demoEnv demoWorld ''ns:Person:name.first''
          (JObj [(''attestableValue'', JStr ''urn:first:7f:Ann'')]) None)
     = Inr (UCA None ''1:ns:Person:name.first:16'' ''ns:Person:name.first'' ''1'' ''String''
              (Raw (JStr ''Ann'')) (Some ''7f''))
   \<and> saltInvariant (UCA None ''1:ns:Person:name.first:16'' ''ns:Person:name.first'' ''1'' ''String''
              (Raw (JStr ''Ann'')) (Some ''7f''))"
proof -
  let ?call = "UCABaseConstructor demoEnv demoWorld ''ns:Person:name.first''
          (JObj [(''attestableValue'', JStr ''urn:first:7f:Ann'')]) None"
  let ?u = "UCA None ''1:ns:Person:name.first:16'' ''ns:Person:name.first'' ''1'' ''String''
              (Raw (JStr ''Ann'')) (Some ''7f'')"
  have run: "fst ?call = Inr ?u"
    by code_simp
  then have "?call = (Inr ?u, snd ?call)"
    by (simp add: prod_eq_iff)
  from salt_presence [OF this] run show ?thesis
    by simp
qed

text \<open>
  The claim as the specification states it fails on composites: the instance built
  from the mapping \<^verbatim>\<open>{first: "Ann", last: "Lee"}\<close> has no salt.
\<close>

theorem composite_has_no_salt:
  "map_sum id uca_salt
     (fst (UCABaseConstructor demoEnv demoWorld ''ns:Person:name''
        (JObj [(''first'', JStr ''Ann''), (''last'', JStr ''Lee'')]) None)) = Inr None"
  by code_simp

section \<open>Commitments of composites\<close>

lemma joinChildren_map_of: "map_of m = map_of m' \<Longrightarrow> joinChildren ks m = joinChildren ks m'"
  by (induction ks) (auto split: option.splits sum.splits)

lemma joinChildren_all:
  "\<forall>k \<in> set ks. map_of m k = Some (Inr (f k)) \<Longrightarrow>
     joinChildren ks m = Inr (concat (map (\<lambda>k. f k @ ''|'') ks))"
  by (induction ks) simp_all

lemma getAttestableValue_Object:
  "getAttestableValue (UCA ts i ident ver ''Object'' (Children kvs) sa) =
     joinChildren (sort (map fst kvs)) (map (\<lambda>(k, c). (k, getAttestableValue c)) kvs)"
  by (simp add: getAttestableValue.simps)

section \<open>The world after a construction\<close>

lemma finish_world: "snd (finish e w ident vers t ts v sa) = w"
  by (simp add: finish_def split: sum.splits)

lemma finish_world': "finish e w ident vers t ts v sa = (r, w') \<Longrightarrow> w' = w"
  using finish_world [of e w ident vers t ts v sa] by simp

lemma UCABaseConstructor_world:
  assumes "UCABaseConstructor e w ident v ver = (r, w')"
  obtains
    (direct) r1 w1 where
      "resolveDefinition w ident ver = (r1, w1)" "definitions w' = definitions w1"
  | (rebuilt) d vers t w1 parsed r2 where
      "resolveDefinition w ident ver = (Inr (d, vers, t), w1)"
      "isAttestableValue v" "parseAttestableValue v = Inr parsed" "length parsed \<noteq> 1"
      "reconstructProperties e w1 (propertiesOf (type d)) parsed [] = (r2, w')"
  | (nested) d vers t w1 kvs r2 where
      "resolveDefinition w ident ver = (Inr (d, vers, t), w1)"
      "\<not> isAttestableValue v" "\<not> isValueOfType v t" "propertiesOf (type d) \<noteq> []"
      "hasRequireds e (type d) v = Inr True" "entriesOf v = Inr kvs"
      "constructProperties e w1 (propertiesOf (type d)) kvs = (r2, w')"
proof -
  obtain r1 w1 where res: "resolveDefinition w ident ver = (r1, w1)"
    by (cases "resolveDefinition w ident ver")
  show thesis
  proof (cases r1)
    case (Inl err)
    then have "w' = w1" using assms res by (simp add: UCABaseConstructor.simps)
    then show thesis using direct res by simp
  next
    case (Inr dvt)
    obtain d vers t where dvt: "dvt = (d, vers, t)" by (cases dvt)
    note r = res [unfolded Inr dvt]
    show thesis
    proof (cases "isAttestableValue v")
      case True
      show thesis
      proof (cases "parseAttestableValue v")
        case (Inl err)
        then have "w' = w1" using assms r True by (simp add: UCABaseConstructor.simps)
        then show thesis using direct r by simp
      next
        case p: (Inr parsed)
        show thesis
        proof (cases "length parsed = 1")
          case one: True
          then have "finish e w1 ident vers t None (Raw (JStr (valueStr (hd parsed)))) (Some (salt (hd parsed))) = (r, w')"
            using assms r True p by (simp add: UCABaseConstructor.simps)
          then have "w' = w1" by (rule finish_world')
          then show thesis using direct r by simp
        next
          case False
          obtain r2 w2 where rp: "reconstructProperties e w1 (propertiesOf (type d)) parsed [] = (r2, w2)"
            by (cases "reconstructProperties e w1 (propertiesOf (type d)) parsed []")
          have body: "(case r2 of Inl err \<Rightarrow> (Inl err, w2)
                     | Inr ucaValue \<Rightarrow> finish e w2 ident vers t None (Children ucaValue) None) = (r, w')"
            using assms r True p False rp by (simp add: UCABaseConstructor.simps)
          then have "w' = w2"
            by (cases r2) (auto dest: finish_world')
          then show thesis using rebuilt [OF r True p False] rp by simp
        qed
      qed
    next
      case False
      show thesis
      proof (cases "isValueOfType v t")
        case True
        have "definitions w' = definitions w1"
          using assms r False True
          by (auto simp: UCABaseConstructor.simps Let_def split: if_splits dest!: finish_world')
        then show thesis using direct r by simp
      next
        case nt: False
        have body: "(if propertiesOf (type d) = [] then (Inl (InvalidValue ident), w1)
          else
            (case hasRequireds e (type d) v of
               Inl err \<Rightarrow> (Inl err, w1)
             | Inr has \<Rightarrow>
                 if \<not> has then (Inl (MissingRequiredField ident), w1)
                 else
                   (case entriesOf v of
                      Inl err \<Rightarrow> (Inl err, w1)
                    | Inr kvs \<Rightarrow>
                        (case constructProperties e w1 (propertiesOf (type d)) kvs of
                           (Inl err, w2) \<Rightarrow> (Inl err, w2)
                         | (Inr pairs, w2) \<Rightarrow>
                             finish e w2 ident vers t None (Children (keyBy pairs)) None)))) = (r, w')"
          using assms r False nt by (simp add: UCABaseConstructor.simps)
        show thesis
        proof (cases "propertiesOf (type d) \<noteq> [] \<and> hasRequireds e (type d) v = Inr True
                       \<and> (\<exists>kvs. entriesOf v = Inr kvs)")
          case stop: False
          have "w' = w1"
            using body stop by (auto split: if_splits sum.splits)
          then show thesis using direct r by simp
        next
          case go: True
          then obtain kvs where kvs: "entriesOf v = Inr kvs" by blast
          obtain r2 w2 where cp: "constructProperties e w1 (propertiesOf (type d)) kvs = (r2, w2)"
            by (cases "constructProperties e w1 (propertiesOf (type d)) kvs")
          have "w' = w2"
            using body go kvs cp by (cases r2) (auto dest: finish_world')
          then show thesis using nested [OF r False nt _ _ kvs] go cp by simp
        qed
      qed
    qed
  qed
qed

lemma constructProperties_Cons_world:
  assumes "constructProperties e w ps ((k, v) # rest) = (r, w')"
  obtains
    (stop) "find (\<lambda>p. name p = k) ps = None" "w' = w"
  | (failed) p err where
      "find (\<lambda>p. name p = k) ps = Some p"
      "UCABaseConstructor e w (ptype p) v (pversion p) = (Inl err, w')"
  | (continued) p uca w1 r2 where
      "find (\<lambda>p. name p = k) ps = Some p"
      "UCABaseConstructor e w (ptype p) v (pversion p) = (Inr uca, w1)"
      "constructProperties e w1 ps rest = (r2, w')"
proof (cases "find (\<lambda>p. name p = k) ps")
  case None
  then have "w' = w" using assms by (simp add: UCABaseConstructor.simps)
  then show thesis using stop None by simp
next
  case (Some p)
  obtain r1 w1 where c: "UCABaseConstructor e w (ptype p) v (pversion p) = (r1, w1)"
    by (cases "UCABaseConstructor e w (ptype p) v (pversion p)")
  show thesis
  proof (cases r1)
    case (Inl err)
    then have "w' = w1" using assms Some c by (simp add: UCABaseConstructor.simps)
    then show thesis using failed Some c Inl by simp
  next
    case (Inr uca)
    obtain r2 w2 where r: "constructProperties e w1 ps rest = (r2, w2)"
      by (cases "constructProperties e w1 ps rest")
    have "w' = w2" using assms Some c Inr r
      by (cases r2) (simp_all add: UCABaseConstructor.simps)
    then show thesis using continued [OF Some] c Inr r by simp
  qed
qed

lemma reconstructProperties_Cons_world:
  assumes "reconstructProperties e w ps (c # rest) acc = (r, w')"
  obtains
    (stop) "find (\<lambda>p. endsWith (ptype p) (propertyName c)) ps = None" "w' = w"
  | (failed) p err where
      "find (\<lambda>p. endsWith (ptype p) (propertyName c)) ps = Some p"
      "UCABaseConstructor e w (ptype p) (JObj [(''attestableValue'', JStr (stringValue c))]) None = (Inl err, w')"
  | (continued) p uca w1 where
      "find (\<lambda>p. endsWith (ptype p) (propertyName c)) ps = Some p"
      "UCABaseConstructor e w (ptype p) (JObj [(''attestableValue'', JStr (stringValue c))]) None = (Inr uca, w1)"
      "reconstructProperties e w1 ps rest (AList.update (propertyName c) uca acc) = (r, w')"
proof (cases "find (\<lambda>p. endsWith (ptype p) (propertyName c)) ps")
  case None
  then have "w' = w" using assms by (simp add: UCABaseConstructor.simps)
  then show thesis using stop None by simp
next
  case (Some p)
  obtain r1 w1 where c: "UCABaseConstructor e w (ptype p) (JObj [(''attestableValue'', JStr (stringValue c))]) None = (r1, w1)"
    by (cases "UCABaseConstructor e w (ptype p) (JObj [(''attestableValue'', JStr (stringValue c))]) None")
  show thesis
  proof (cases r1)
    case (Inl err)
    then have "w' = w1" using assms Some c by (simp add: UCABaseConstructor.simps)
    then show thesis using failed Some c Inl by simp
  next
    case (Inr uca)
    then have "reconstructProperties e w1 ps rest (AList.update (propertyName c) uca acc) = (r, w')"
      using assms Some c by (simp add: UCABaseConstructor.simps)
    then show thesis using continued [OF Some] c Inr by simp
  qed
qed

lemma world_relation_all:
  assumes frame: "\<And>w w'. definitions w' = definitions w \<Longrightarrow> Rel w w'"
    and trans: "\<And>a b c. Rel a b \<Longrightarrow> Rel b c \<Longrightarrow> Rel a c"
    and step: "\<And>w ident ver r w1. resolveDefinition w ident ver = (r, w1) \<Longrightarrow> Rel w w1"
  shows "UCABaseConstructor e w ident v ver = (r, w') \<Longrightarrow> Rel w w'"
    and "constructProperties e w ps kvs = (rs, w') \<Longrightarrow> Rel w w'"
    and "reconstructProperties e w ps cs acc = (rs, w') \<Longrightarrow> Rel w w'"
proof (induction e w ident v ver and e w ps kvs and e w ps cs acc
    arbitrary: r w' and rs w' and rs w'
    rule: UCABaseConstructor_constructProperties_reconstructProperties.induct)
  case (1 e w ident v ver)
  from "1.prems" show ?case
  proof (cases rule: UCABaseConstructor_world)
    case (direct r1 w1)
    show ?thesis
      using step [OF direct(1)] frame [OF direct(2)] by (rule trans)
  next
    case (rebuilt d vers t w1 parsed r2)
    show ?thesis
      using step [OF rebuilt(1)]
        "1.IH"(1) [OF rebuilt(1) [symmetric] refl refl refl rebuilt(2,3,4) rebuilt(5)]
      by (rule trans)
  next
    case (nested d vers t w1 kvs r2)
    show ?thesis
      using step [OF nested(1)]
        "1.IH"(2) [OF nested(1) [symmetric] refl refl refl nested(2,3,4,5) _ nested(6,7)]
      by (auto intro: trans)
  qed
next
  case (2 e w ps)
  then show ?case by (simp add: frame)
next
  case (3 e w ps k v rest)
  from "3.prems" show ?case
  proof (cases rule: constructProperties_Cons_world)
    case stop
    then show ?thesis by (simp add: frame)
  next
    case (failed p err)
    then show ?thesis using "3.IH"(1) by blast
  next
    case (continued p uca w1 r2)
    show ?thesis
      using "3.IH"(1) [OF continued(1,2)] "3.IH"(2) [OF continued(1) continued(2) [symmetric] refl continued(3)]
      by (rule trans)
  qed
next
  case (4 e w ps ucaValue)
  then show ?case by (simp add: frame)
next
  case (5 e w ps c rest ucaValue)
  from "5.prems" show ?case
  proof (cases rule: reconstructProperties_Cons_world)
    case stop
    then show ?thesis by (simp add: frame)
  next
    case (failed p err)
    then show ?thesis using "5.IH"(1) by blast
  next
    case (continued p uca w1)
    show ?thesis
      using "5.IH"(1) [OF continued(1,2)] "5.IH"(2) [OF continued(1) continued(2) [symmetric] refl continued(3)]
      by (rule trans)
  qed
qed

section \<open>The registry after a construction\<close>

lemma getTypeNameF_result:
  "getTypeNameF n defs d = Inr t \<Longrightarrow> t = ''Object'' \<or> t \<notin> set (validIdentifiers defs)"
proof (induction n arbitrary: d)
  case 0
  then show ?case
    by (auto simp: getTypeNameF.simps [of 0] split: dtype.splits if_splits option.splits)
next
  case (Suc n)
  then show ?case
    by (auto simp: getTypeNameF.simps [of "Suc n"] split: dtype.splits if_splits option.splits)
qed

lemma getTypeNameF_concrete:
  "concreteType (validIdentifiers defs) (type d) \<Longrightarrow>
     getTypeNameF n defs d = Inr (case type d of TName s \<Rightarrow> s | TObject sch \<Rightarrow> ''Object'')"
  by (auto simp: getTypeNameF.simps [of n] concreteType_def split: dtype.splits)

lemma resolveTypeF_concrete:
  "resolveTypeF n defs d = Inr ct \<Longrightarrow> concreteType (validIdentifiers defs) ct"
proof (induction n arbitrary: d)
  case 0
  then show ?case
    using getTypeNameF_result [of "length defs" defs d]
    by (auto simp: resolveTypeF.simps [of 0] getTypeName_def concreteType_def
        split: sum.splits dtype.splits if_splits option.splits)
next
  case (Suc n)
  then show ?case
    using getTypeNameF_result [of "length defs" defs d]
    by (auto simp: resolveTypeF.simps [of "Suc n"] getTypeName_def concreteType_def
        split: sum.splits dtype.splits if_splits option.splits)
qed

lemma find_identifier_None:
  "s \<notin> set (validIdentifiers defs) \<Longrightarrow> find (\<lambda>x. identifier x = s) defs = None"
  by (auto simp: find_None_iff validIdentifiers_def)

lemma resolveTypeF_of_concrete:
  "concreteType (validIdentifiers defs) (type d) \<Longrightarrow> resolveTypeF n defs d = Inr ct \<Longrightarrow> ct = type d"
  using getTypeNameF_concrete [of defs d "length defs"]
  by (auto simp: resolveTypeF.simps [of n] getTypeName_def concreteType_def find_identifier_None
      split: dtype.splits if_splits)

lemma refined_refl: "refined ids d d"
  by (simp add: refined_def)

lemma refined_identifier: "refined ids d d' \<Longrightarrow> identifier d' = identifier d"
  by (auto simp: refined_def dest: arg_cong [where f = "identifier"])

lemma refined_trans: "refined ids a b \<Longrightarrow> refined ids b c \<Longrightarrow> refined ids a c"
  by (auto simp: refined_def)


lemma refined_all_identifiers:
  "list_all2 (refined ids) defs defs' \<Longrightarrow> validIdentifiers defs' = validIdentifiers defs"
  unfolding validIdentifiers_def
  by (induction rule: list_all2_induct) (auto dest: refined_identifier)

lemma registryRefined_refl: "registryRefined defs defs"
  by (simp add: registryRefined_def list_all2_refl refined_refl)

lemma registryRefined_trans:
  assumes "registryRefined a b" and "registryRefined b c"
  shows "registryRefined a c"
proof -
  have ids: "validIdentifiers b = validIdentifiers a"
    using assms(1) unfolding registryRefined_def by (rule refined_all_identifiers)
  have ab: "list_all2 (refined (validIdentifiers a)) a b"
    using assms(1) by (simp add: registryRefined_def)
  have bc: "list_all2 (refined (validIdentifiers a)) b c"
    using assms(2) ids by (simp add: registryRefined_def)
  have "list_all2 (refined (validIdentifiers a)) a c"
    using refined_trans ab bc by (rule list_all2_trans)
  then show ?thesis by (simp add: registryRefined_def)
qed

lemma assignType_refined:
  assumes "find P defs = Some d" and "refined ids d (d\<lparr>type := ct\<rparr>)"
  shows "list_all2 (refined ids) defs (assignType P ct defs)"
  using assms
proof (induction defs)
  case Nil
  then show ?case by simp
next
  case (Cons x xs)
  then show ?case
    by (auto simp: list_all2_refl refined_refl split: if_splits)
qed

lemma resolveDefinition_world:
  assumes "resolveDefinition w ident ver = (r, w1)"
  obtains
    (same) "w1 = w" "\<forall>x. r \<noteq> Inr x"
  | (assigned) d t ct where
      "ident \<in> set (validIdentifiers (definitions w))"
      "find (matches ident ver) (definitions w) = Some d"
      "getTypeName (definitions w) d = Inr t"
      "resolveType (definitions w) d = Inr ct"
      "r = Inr (d\<lparr>type := ct\<rparr>, if given ver then the ver else version d, t)"
      "w1 = w\<lparr>definitions := assignType (matches ident ver) ct (definitions w)\<rparr>"
proof (cases "ident \<in> set (validIdentifiers (definitions w))")
  case False
  then show thesis using assms same by (auto simp: resolveDefinition_def)
next
  case known: True
  show thesis
  proof (cases "find (matches ident ver) (definitions w)")
    case None
    then show thesis using assms known same by (auto simp: resolveDefinition_def)
  next
    case (Some d)
    show thesis
    proof (cases "getTypeName (definitions w) d")
      case (Inl err)
      then show thesis using assms known Some same by (auto simp: resolveDefinition_def)
    next
      case t: (Inr t)
      show thesis
      proof (cases "resolveType (definitions w) d")
        case (Inl err)
        then show thesis using assms known Some t same by (auto simp: resolveDefinition_def)
      next
        case (Inr ct)
        then show thesis using assms known Some t assigned [OF known Some t Inr]
          by (simp add: resolveDefinition_def)
      qed
    qed
  qed
qed

lemma resolveDefinition_refined:
  assumes "resolveDefinition w ident ver = (r, w1)"
  shows "registryRefined (definitions w) (definitions w1)"
  using assms
proof (cases rule: resolveDefinition_world)
  case same
  then show ?thesis by (simp add: registryRefined_refl)
next
  case (assigned d t ct)
  let ?ids = "validIdentifiers (definitions w)"
  have conc: "concreteType ?ids ct"
    using assigned(4) unfolding resolveType_def by (rule resolveTypeF_concrete)
  have "refined ?ids d (d\<lparr>type := ct\<rparr>)"
  proof (cases "concreteType ?ids (type d)")
    case True
    then have "ct = type d"
      using assigned(4) unfolding resolveType_def by (rule resolveTypeF_of_concrete)
    then show ?thesis by (simp add: refined_def)
  next
    case False
    then show ?thesis using conc by (simp add: refined_def)
  qed
  with assigned(2) have "list_all2 (refined ?ids) (definitions w) (assignType (matches ident ver) ct (definitions w))"
    by (rule assignType_refined)
  then show ?thesis
    by (simp add: registryRefined_def assigned(6))
qed

lemma registry_refined:
  assumes "UCABaseConstructor e w ident v ver = (r, w')"
  shows "registryRefined (definitions w) (definitions w')"
proof -
  let ?Rel = "\<lambda>a b. registryRefined (definitions a) (definitions b)"
  have frame: "?Rel a b" if "definitions b = definitions a" for a b
    using that by (simp add: registryRefined_refl)
  have trans: "?Rel a c" if "?Rel a b" and "?Rel b c" for a b c
    using that by (rule registryRefined_trans)
  have step: "?Rel a b" if "resolveDefinition a i vr = (x, b)" for a i vr x b
    using that by (rule resolveDefinition_refined)
  show ?thesis
    using world_relation_all(1) [of ?Rel, OF frame trans step assms] .
qed

text \<open>
  C2, as the code has it. Line 121, \<^verbatim>\<open>definition.type = resolveType(definition)\<close>,
  writes into the registry. Whatever a call returns or throws, the registry keeps its
  length and order, and every field of every definition except \<^verbatim>\<open>type\<close>
  (identifier, version, constraints, flags) is the same before and after; a
  definition whose type is concrete (an inline schema, or a name that is no
  identifier) is untouched, and a definition that did change has got a concrete type
  in place of a reference.
\<close>

theorem registry_frame:
  assumes "UCABaseConstructor e w ident v ver = (r, w')"
  shows "length (definitions w') = length (definitions w)
    \<and> (\<forall>i < length (definitions w).
          (definitions w' ! i)\<lparr>type := type (definitions w ! i)\<rparr> = definitions w ! i
          \<and> (concreteType (validIdentifiers (definitions w)) (type (definitions w ! i))
               \<longrightarrow> definitions w' ! i = definitions w ! i)
          \<and> (definitions w' ! i \<noteq> definitions w ! i
               \<longrightarrow> concreteType (validIdentifiers (definitions w)) (type (definitions w' ! i))))"
proof -
  let ?ids = "validIdentifiers (definitions w)"
  have all: "list_all2 (refined ?ids) (definitions w) (definitions w')"
    using registry_refined [OF assms] by (simp add: registryRefined_def)
  have one: "d'\<lparr>type := type d\<rparr> = d \<and> (concreteType ?ids (type d) \<longrightarrow> d' = d)
        \<and> (d' \<noteq> d \<longrightarrow> concreteType ?ids (type d'))" if "refined ?ids d d'" for d d'
  proof (cases "d' = d")
    case True
    then show ?thesis by simp
  next
    case False
    then have "\<not> concreteType ?ids (type d)" and conc: "concreteType ?ids (type d')"
      and d': "d' = d\<lparr>type := type d'\<rparr>"
      using that by (auto simp: refined_def)
    have "d'\<lparr>type := type d\<rparr> = d\<lparr>type := type d'\<rparr>\<lparr>type := type d\<rparr>"
      using d' by simp
    then show ?thesis
      using \<open>\<not> concreteType ?ids (type d)\<close> conc by simp
  qed
  show ?thesis
    using all one by (auto simp: list_all2_conv_all_nth)
qed

theorem registry_frame_witness:
  "length (definitions (snd (UCABaseConstructor demoEnv demoWorld ''ns:Person:years'' (JNum 42) None)))
     = length (definitions demoWorld)
   \<and> definitions (snd (UCABaseConstructor demoEnv demoWorld ''ns:Person:years'' (JNum 42) None)) ! 3
     = definitions demoWorld ! 3"
proof -
  let ?call = "UCABaseConstructor demoEnv demoWorld ''ns:Person:years'' (JNum 42) None"
  have "?call = (fst ?call, snd ?call)"
    by simp
  from registry_frame [OF this]
  have len: "length (definitions (snd ?call)) = length (definitions demoWorld)"
    and each: "\<And>i. i < length (definitions demoWorld) \<Longrightarrow>
       concreteType (validIdentifiers (definitions demoWorld)) (type (definitions demoWorld ! i))
       \<Longrightarrow> definitions (snd ?call) ! i = definitions demoWorld ! i"
    by blast+
  have "definitions (snd ?call) ! 3 = definitions demoWorld ! 3"
    by (rule each) (simp_all add: demo_defs concreteType_def validIdentifiers_def)
  with len show ?thesis by simp
qed

text \<open>
  The claim as the specification states it fails: constructing an instance of
  \<^verbatim>\<open>ns:Person:years\<close>, whose type is a reference to \<^verbatim>\<open>ns:Person:age\<close>, leaves the
  definition with the type \<^verbatim>\<open>Number\<close>.
\<close>

theorem construction_rewrites_reference_type:
  "map type (definitions (snd (UCABaseConstructor demoEnv demoWorld ''ns:Person:years'' (JNum 42) None)))
     \<noteq> map type (definitions demoWorld)"
  by code_simp

section \<open>Round trip through a commitment\<close>

lemma js_split_no_pipe: "c \<notin> set s \<Longrightarrow> js_split c s = [s]"
  by (induction s) auto

lemma urn_no_pipe:
  assumes "list_all isWordChar p" and "list_all isWordChar sa" and "CHR ''|'' \<notin> set v"
  shows "CHR ''|'' \<notin> set (urn p sa v)"
  using assms not_word_pipe by (auto simp: urn_def list_all_iff)

lemma parseAttestableValue_urn:
  assumes "list_all isWordChar p" and "list_all isWordChar sa" and "CHR ''|'' \<notin> set v"
  shows "parseAttestableValue (JObj [(''attestableValue'', JStr (urn p sa v))])
     = Inr [\<lparr>propertyName = p, salt = sa, valueStr = v, stringValue = urn p sa v\<rparr>]"
  using js_split_no_pipe [OF urn_no_pipe [OF assms]] attestableValueRegex_urn [OF assms(1,2)]
  by (simp add: parseAttestableValue_def splitPipes_def)

lemma isAttestableValue_urn: "isAttestableValue (JObj [(''attestableValue'', JStr (urn p sa v))])"
  by (simp add: isAttestableValue_def urn_def)


lemma validIdentifiers_assignType: "validIdentifiers (assignType P ct defs) = validIdentifiers defs"
  by (induction defs) (simp_all add: validIdentifiers_def)

lemma find_assignType:
  assumes "find P defs = Some d0" and "Q d0" and "\<And>d. Q d \<Longrightarrow> P d"
    and "\<And>d t. Q (d\<lparr>type := t\<rparr>) = Q d"
  shows "find Q (assignType P ct defs) = Some (d0\<lparr>type := ct\<rparr>)"
  using assms(1)
proof (induction defs)
  case Nil
  then show ?case by simp
next
  case (Cons x xs)
  show ?case
  proof (cases "P x")
    case True
    then show ?thesis using Cons.prems assms(2,4) by simp
  next
    case False
    then have "\<not> Q x" using assms(3) by blast
    then show ?thesis using False Cons by simp
  qed
qed

lemma matches_type: "matches ident ver (d\<lparr>type := t\<rparr>) = matches ident ver d"
  by (simp add: matches_def)

lemma second_lookup:
  assumes "find (matches ident ver) defs = Some d0"
  shows "find (matches ident (Some (if given ver then the ver else version d0)))
           (assignType (matches ident ver) ct defs) = Some (d0\<lparr>type := ct\<rparr>)"
proof (rule find_assignType [OF assms])
  have P: "matches ident ver d0"
    using assms by (auto simp: find_Some_iff)
  then show "matches ident (Some (if given ver then the ver else version d0)) d0"
    by (cases ver) (auto simp: matches_def given_def)
  show "matches ident ver d" if "matches ident (Some (if given ver then the ver else version d0)) d" for d
    using that by (cases ver) (auto simp: matches_def given_def split: if_splits)
  show "matches ident (Some (if given ver then the ver else version d0)) (d\<lparr>type := t\<rparr>)
        = matches ident (Some (if given ver then the ver else version d0)) d" for d t
    by (rule matches_type)
qed

lemma second_version:
  "(if given (Some (if given ver then the ver else version d0))
    then the (Some (if given ver then the ver else version d0)) else version d0)
   = (if given ver then the ver else version d0)"
  by (cases ver) (auto simp: given_def)

lemma resolveDefinition_concrete:
  assumes "ident \<in> set (validIdentifiers (definitions w))"
    and "find (matches ident ver) (definitions w) = Some d"
    and "type d = TName t" and "t \<notin> set (validIdentifiers (definitions w))" and "t \<noteq> ''Object''"
  shows "\<exists>w1. resolveDefinition w ident ver = (Inr (d, if given ver then the ver else version d, t), w1)"
proof -
  have conc: "concreteType (validIdentifiers (definitions w)) (type d)"
    using assms(3,4) by (simp add: concreteType_def)
  have tn: "getTypeName (definitions w) d = Inr t"
    using getTypeNameF_concrete [OF conc] assms(3) by (simp add: getTypeName_def)
  have rt: "resolveType (definitions w) d = Inr (TName t)"
    using tn assms(5) by (simp add: resolveType_def resolveTypeF.simps)
  have "d\<lparr>type := TName t\<rparr> = d"
    using assms(3) by simp
  then show ?thesis
    using assms(1,2) tn rt by (simp add: resolveDefinition_def)
qed

lemma UCABaseConstructor_leaf:
  assumes "resolveDefinition w ident ver = (Inr (d, vers, t), w1)"
    and "isAttestableValue v" and "parseAttestableValue v = Inr [c]"
  shows "UCABaseConstructor e w ident v ver
         = finish e w1 ident vers t None (Raw (JStr (valueStr c))) (Some (salt c))"
  using assms by (simp add: UCABaseConstructor.simps)

lemma padStart_idem: "padStart (padStart s n c) n c = padStart s n c"
  by (simp add: padStart_def)

lemma getAttestableValue_raw:
  assumes "isValueOfType v t"
  shows "getAttestableValue (UCA ts i ident vers t (Raw v) sa)
         = Inr (urn (propertyNameOf ident) (saltString sa) (leafText t v))"
  using assms
  by (cases v) (auto simp: isValueOfType_def getAttestableValue.simps leafText_def split: if_splits)

lemma getAttestableValue_rebuilt:
  assumes "isValueOfType v t"
  shows "getAttestableValue (UCA ts i ident vers t (Raw (JStr (leafText t v))) sa)
         = Inr (urn (propertyNameOf ident) (saltString sa) (leafText t v))"
  using assms
  by (cases v) (auto simp: isValueOfType_def getAttestableValue.simps leafText_def padStart_idem split: if_splits)


lemma saltString_Some: "saltString (Some s) = s"
  by (simp add: saltString_def)

lemma isValueOfType_primitive:
  assumes "isValueOfType v t"
  shows "\<not> isAttestableValue v" and "t \<noteq> ''Object''"
  using assms by (cases v; auto simp: isValueOfType_def isAttestableValue_def split: if_splits)+

lemma leafText_no_pipe:
  assumes "CHR ''|'' \<notin> set (toString v)"
  shows "CHR ''|'' \<notin> set (leafText t v)"
  using assms by (auto simp: leafText_def padStart_def)

lemma leafText_String: "isValueOfType v ''String'' \<Longrightarrow> JStr (leafText ''String'' v) = v"
  by (cases v) (auto simp: isValueOfType_def leafText_def)

text \<open>
  C1, as the code has it. Let \<open>A\<close> be built from a raw value of its type, with a
  property name and a salt made of word characters and no \<^verbatim>\<open>|\<close> in the rendered
  value. Constructing again, in the world \<open>A\<close> left, from the commitment of \<open>A\<close>
  with the identifier and version of \<open>A\<close> succeeds with an instance \<open>B\<close> that
  has the salt, the commitment and the id of \<open>A\<close> and no timestamp, while \<open>A\<close>
  has one. The value of \<open>B\<close> is the value part of the commitment, a string: it is
  the value of \<open>A\<close> when the type is \<^verbatim>\<open>String\<close>; for a number it is the padded
  decimal string and for a boolean the word \<^verbatim>\<open>true\<close> or \<^verbatim>\<open>false\<close>.
\<close>

theorem commitment_round_trip:
  assumes A: "UCABaseConstructor e w ident v ver = (Inr A, wA)"
    and prim: "isValueOfType v (uca_type A)"
    and name: "list_all isWordChar (propertyNameOf ident)"
    and salt: "list_all isWordChar (saltString (uca_salt A))"
    and nopipe: "CHR ''|'' \<notin> set (toString v)"
  shows "\<exists>s B wB. getAttestableValue A = Inr s
      \<and> UCABaseConstructor e wA (uca_identifier A) (JObj [(''attestableValue'', JStr s)])
            (Some (uca_version A)) = (Inr B, wB)
      \<and> uca_value B = Raw (JStr (leafText (uca_type A) v))
      \<and> (uca_type A = ''String'' \<longrightarrow> uca_value B = uca_value A)
      \<and> uca_salt B = uca_salt A \<and> getAttestableValue B = Inr s \<and> uca_id B = uca_id A
      \<and> uca_timestamp B = None \<and> uca_timestamp A \<noteq> None"
  using A
proof (cases rule: UCABaseConstructor_success)
  case (leaf d vers t w1 c)
  then have "uca_type A = t" by (auto dest!: finish_Inr)
  then show ?thesis using prim leaf(2) isValueOfType_primitive(1) by blast
next
  case (rebuilt d vers t w1 parsed ucaValue w2)
  then have "uca_type A = t" by (auto dest!: finish_Inr)
  then show ?thesis using prim rebuilt(2) isValueOfType_primitive(1) by blast
next
  case (nested d vers t w1 kvs pairs w2)
  then have "uca_type A = t" by (auto dest!: finish_Inr)
  then show ?thesis using prim nested(3) by simp
next
  case (raw d vers t w1)
  let ?sa = "sha256hex e (wordWith e (draws w1))"
  let ?pn = "propertyNameOf ident"
  let ?text = "leafText t v"
  let ?s = "urn ?pn ?sa ?text"
  let ?id = "vers @ '':'' @ ident @ '':'' @ sha256hex e ?s"
  have vt: "isValueOfType v t"
    using raw(3) .
  have Aeq: "A = UCA (Some (now e (ticks w1))) ?id ident vers t (Raw v) (Some ?sa)"
    and wA: "wA = w1\<lparr>ticks := Suc (ticks w1), draws := Suc (draws w1)\<rparr>"
    using finish_Inr [OF raw(5)] getAttestableValue_raw [OF vt] by (auto simp: saltString_Some)
  have commitA: "getAttestableValue A = Inr ?s"
    unfolding Aeq using getAttestableValue_raw [OF vt] by (simp add: saltString_Some)
  have notObject: "t \<noteq> ''Object''"
    using vt by (rule isValueOfType_primitive(2))
  from raw(1) obtain d0 ct where known: "ident \<in> set (validIdentifiers (definitions w))"
    and found: "find (matches ident ver) (definitions w) = Some d0"
    and tn: "getTypeName (definitions w) d0 = Inr t"
    and rt: "resolveType (definitions w) d0 = Inr ct"
    and vers: "vers = (if given ver then the ver else version d0)"
    and w1: "w1 = w\<lparr>definitions := assignType (matches ident ver) ct (definitions w)\<rparr>"
    by (cases rule: resolveDefinition_world) auto
  have ct: "ct = TName t"
    using rt tn notObject by (simp add: resolveType_def resolveTypeF.simps)
  have fresh: "t \<notin> set (validIdentifiers (definitions w))"
    using getTypeNameF_result [of "length (definitions w)" "definitions w" d0 t] tn notObject
    by (simp add: getTypeName_def)
  have defsA: "definitions wA = assignType (matches ident ver) (TName t) (definitions w)"
    by (simp add: wA w1 ct)
  have idsA: "validIdentifiers (definitions wA) = validIdentifiers (definitions w)"
    by (simp add: defsA validIdentifiers_assignType)
  have foundA: "find (matches ident (Some vers)) (definitions wA) = Some (d0\<lparr>type := TName t\<rparr>)"
    unfolding defsA vers by (rule second_lookup [OF found])
  have "\<exists>wB. resolveDefinition wA ident (Some vers)
          = (Inr (d0\<lparr>type := TName t\<rparr>,
                  if given (Some vers) then the (Some vers) else version (d0\<lparr>type := TName t\<rparr>), t), wB)"
    by (rule resolveDefinition_concrete [OF _ foundA]) (simp_all add: idsA known fresh notObject)
  then obtain wB where resB':
      "resolveDefinition wA ident (Some vers)
          = (Inr (d0\<lparr>type := TName t\<rparr>,
                  if given (Some vers) then the (Some vers) else version (d0\<lparr>type := TName t\<rparr>), t), wB)"
    by blast
  have "version (d0\<lparr>type := TName t\<rparr>) = version d0"
    by simp
  then have "(if given (Some vers) then the (Some vers) else version (d0\<lparr>type := TName t\<rparr>)) = vers"
    using second_version [of ver d0] by (simp only: vers)
  with resB' have resB:
      "resolveDefinition wA ident (Some vers) = (Inr (d0\<lparr>type := TName t\<rparr>, vers, t), wB)"
    by (simp only:)
  have wordy: "list_all isWordChar ?pn" "list_all isWordChar ?sa"
    using name salt by (simp_all add: Aeq saltString_Some)
  have pipe: "CHR ''|'' \<notin> set ?text"
    using nopipe by (rule leafText_no_pipe)
  have "UCABaseConstructor e wA ident (JObj [(''attestableValue'', JStr ?s)]) (Some vers)
        = finish e wB ident vers t None (Raw (JStr ?text)) (Some ?sa)"
    using UCABaseConstructor_leaf [OF resB isAttestableValue_urn parseAttestableValue_urn [OF wordy pipe]]
    by simp
  also have "\<dots> = (Inr (UCA None ?id ident vers t (Raw (JStr ?text)) (Some ?sa)), wB)"
    by (simp add: finish_def getAttestableValue_rebuilt [OF vt] saltString_Some)
  finally have B: "UCABaseConstructor e wA (uca_identifier A) (JObj [(''attestableValue'', JStr ?s)])
        (Some (uca_version A)) = (Inr (UCA None ?id ident vers t (Raw (JStr ?text)) (Some ?sa)), wB)"
    by (simp add: Aeq)
  have commitB: "getAttestableValue (UCA None ?id ident vers t (Raw (JStr ?text)) (Some ?sa)) = Inr ?s"
    using getAttestableValue_rebuilt [OF vt, of None ?id ident vers "Some ?sa"]
    by (simp add: saltString_Some)
  have str: "uca_type A = ''String'' \<longrightarrow> Raw (JStr ?text) = uca_value A"
    using vt leafText_String [of v] by (auto simp: Aeq)
  show ?thesis
    using commitA B commitB str by (intro exI [of _ ?s] exI [of _ "UCA None ?id ident vers t (Raw (JStr ?text)) (Some ?sa)"] exI [of _ wB]) (simp add: Aeq)
qed

theorem commitment_round_trip_witness:
  "fst (UCABaseConstructor demoEnv demoWorld ''ns:Person:name.first'' (JStr ''Ann'') None)
     = Inr (UCA (Some 1000) ''1:ns:Person:name.first:15'' ''ns:Person:name.first'' ''1'' ''String''
              (Raw (JStr ''Ann'')) (Some ''1''))
   \<and> (\<exists>B wB. UCABaseConstructor demoEnv
            (snd (UCABaseConstructor demoEnv demoWorld ''ns:Person:name.first'' (JStr ''Ann'') None))
            ''ns:Person:name.first'' (JObj [(''attestableValue'', JStr ''urn:first:1:Ann'')]) (Some ''1'')
          = (Inr B, wB)
        \<and> uca_value B = Raw (JStr ''Ann'') \<and> uca_salt B = Some ''1''
        \<and> getAttestableValue B = Inr ''urn:first:1:Ann''
        \<and> uca_id B = ''1:ns:Person:name.first:15'' \<and> uca_timestamp B = None)"
proof -
  let ?call = "UCABaseConstructor demoEnv demoWorld ''ns:Person:name.first'' (JStr ''Ann'') None"
  let ?A = "UCA (Some 1000) ''1:ns:Person:name.first:15'' ''ns:Person:name.first'' ''1'' ''String''
              (Raw (JStr ''Ann'')) (Some ''1'')"
  have run: "fst ?call = Inr ?A"
    by code_simp
  then have A: "?call = (Inr ?A, snd ?call)"
    by (simp add: prod_eq_iff)
  have prim: "isValueOfType (JStr ''Ann'') (uca_type ?A)"
    by (simp add: isValueOfType_def)
  have name: "list_all isWordChar (propertyNameOf ''ns:Person:name.first'')"
    by code_simp
  have salt: "list_all isWordChar (saltString (uca_salt ?A))"
    by code_simp
  have nopipe: "CHR ''|'' \<notin> set (toString (JStr ''Ann''))"
    by simp
  have commit: "getAttestableValue ?A = Inr ''urn:first:1:Ann''"
    by code_simp
  have rendered: "leafText ''String'' (JStr ''Ann'') = ''Ann''"
    by (simp add: leafText_def)
  from commitment_round_trip [OF A prim name salt nopipe] commit rendered run show ?thesis
    by auto
qed

text \<open>
  The claim as the specification states it fails on numbers: the instance built from
  \<^verbatim>\<open>42\<close> has the commitment \<^verbatim>\<open>urn:age:1:00000042\<close>, and the instance rebuilt from
  it holds the string \<^verbatim>\<open>"00000042"\<close>, not the number.
\<close>

theorem round_trip_changes_number:
  "fst (UCABaseConstructor demoEnv demoWorld ''ns:Person:age'' (JNum 42) None) = Inr demoAge
   \<and> getAttestableValue demoAge = Inr ''urn:age:1:00000042''
   \<and> fst (UCABaseConstructor demoEnv
             (snd (UCABaseConstructor demoEnv demoWorld ''ns:Person:age'' (JNum 42) None))
             ''ns:Person:age'' (JObj [(''attestableValue'', JStr ''urn:age:1:00000042'')]) (Some ''1''))
       = Inr demoAgeRebuilt
   \<and> uca_value demoAgeRebuilt \<noteq> uca_value demoAge"
  by code_simp

section \<open>Resolution is stable under the assignments of line 121\<close>

lemma getTypeNameF_Suc:
  "getTypeNameF n defs d = Inr t \<Longrightarrow> getTypeNameF (Suc n) defs d = Inr t"
proof (induction n arbitrary: d)
  case 0
  then show ?case
    by (auto simp: getTypeNameF.simps [of 0] getTypeNameF.simps [of "Suc 0"]
        split: dtype.splits if_splits option.splits)
next
  case (Suc n)
  show ?case
  proof (cases "type d")
    case (TObject sch)
    then show ?thesis using Suc.prems by (simp add: getTypeNameF.simps [of _ defs d])
  next
    case (TName s)
    show ?thesis
    proof (cases "s \<in> set (validIdentifiers defs)")
      case False
      then show ?thesis using Suc.prems TName by (simp add: getTypeNameF.simps [of _ defs d])
    next
      case True
      then obtain r where r: "find (\<lambda>x. identifier x = s) defs = Some r"
        using Suc.prems TName by (cases "find (\<lambda>x. identifier x = s) defs") (auto simp: getTypeNameF.simps [of _ defs d])
      then have "getTypeNameF n defs r = Inr t"
        using Suc.prems TName True by (simp add: getTypeNameF.simps [of "Suc n" defs d])
      then have "getTypeNameF (Suc n) defs r = Inr t"
        by (rule Suc.IH)
      then show ?thesis
        using TName True r by (simp add: getTypeNameF.simps [of "Suc (Suc n)" defs d])
    qed
  qed
qed

lemma getTypeNameF_mono:
  "getTypeNameF n defs d = Inr t \<Longrightarrow> n \<le> m \<Longrightarrow> getTypeNameF m defs d = Inr t"
  by (induction m) (auto simp: le_Suc_eq getTypeNameF_Suc)

lemma getTypeNameF_unique:
  assumes "getTypeNameF n defs d = Inr t" and "getTypeNameF m defs d = Inr t'"
  shows "t' = t"
proof (cases "n \<le> m")
  case True
  then show ?thesis using getTypeNameF_mono [OF assms(1) True] assms(2) by simp
next
  case False
  then have "m \<le> n" by simp
  then show ?thesis using getTypeNameF_mono [OF assms(2)] assms(1) by simp
qed


lemma resolveTypeF_cases:
  assumes "resolveTypeF n defs d = Inr ct"
  obtains
    (named) tn where "getTypeName defs d = Inr tn" "tn \<noteq> ''Object''" "ct = TName tn"
  | (inline) sch where "getTypeName defs d = Inr ''Object''" "type d = TObject sch" "ct = TObject sch"
  | (reference) s r m where "getTypeName defs d = Inr ''Object''" "type d = TName s"
      "find (\<lambda>x. identifier x = s) defs = Some r" "n = Suc m" "resolveTypeF m defs r = Inr ct"
proof (cases "getTypeName defs d")
  case (Inl err)
  then show thesis using assms by (simp add: resolveTypeF.simps [of n defs d])
next
  case tn: (Inr tn)
  show thesis
  proof (cases "tn = ''Object''")
    case False
    then have "resolveTypeF n defs d = Inr (TName tn)"
      using tn by (simp add: resolveTypeF.simps [of n defs d])
    then have "ct = TName tn" using assms by simp
    then show thesis using tn False by (intro named [of tn]) simp_all
  next
    case obj: True
    show thesis
    proof (cases "type d")
      case (TObject sch)
      then have "resolveTypeF n defs d = Inr (TObject sch)"
        using tn obj by (simp add: resolveTypeF.simps [of n defs d])
      then have "ct = TObject sch" using assms by simp
      then show thesis using tn obj TObject by (intro inline [of sch]) simp_all
    next
      case (TName s)
      show thesis
      proof (cases "find (\<lambda>x. identifier x = s) defs")
        case None
        then show thesis using assms tn obj TName by (simp add: resolveTypeF.simps [of n defs d])
      next
        case (Some r)
        show thesis
        proof (cases n)
          case 0
          then show thesis using assms tn obj TName Some by (simp add: resolveTypeF.simps [of 0 defs d])
        next
          case (Suc m)
          then have "resolveTypeF m defs r = Inr ct"
            using assms tn obj TName Some by (simp add: resolveTypeF.simps [of "Suc m" defs d])
          then show thesis using reference tn obj TName Some Suc by simp
        qed
      qed
    qed
  qed
qed

lemma getTypeName_reference:
  assumes "getTypeName defs d = Inr t" and "type d = TName s"
    and "find (\<lambda>x. identifier x = s) defs = Some r"
  shows "getTypeName defs r = Inr t"
proof -
  have known: "s \<in> set (validIdentifiers defs)"
    using assms(3) by (auto simp: find_Some_iff validIdentifiers_def)
  obtain m where len: "length defs = Suc m" and "getTypeNameF m defs r = Inr t"
    using assms known
    by (cases "length defs") (auto simp: getTypeName_def getTypeNameF.simps [of _ defs d])
  then show ?thesis
    using getTypeNameF_Suc [of m defs r t] by (simp add: getTypeName_def)
qed

lemma resolveTypeF_typeName:
  "resolveTypeF n defs d = Inr ct \<Longrightarrow>
     getTypeName defs d = Inr (typeNameOf ct) \<and> (\<forall>tn. ct = TName tn \<longrightarrow> tn \<noteq> ''Object'')"
proof (induction n arbitrary: d)
  case 0
  from "0.prems" show ?case
    by (cases rule: resolveTypeF_cases) (auto simp: typeNameOf_def)
next
  case (Suc n)
  from Suc.prems show ?case
  proof (cases rule: resolveTypeF_cases)
    case (named tn)
    then show ?thesis by (simp add: typeNameOf_def)
  next
    case (inline sch)
    then show ?thesis by (simp add: typeNameOf_def)
  next
    case (reference s r m)
    then have r: "getTypeName defs r = Inr (typeNameOf ct)" and no: "\<forall>tn. ct = TName tn \<longrightarrow> tn \<noteq> ''Object''"
      using Suc.IH [of r] by auto
    have "getTypeName defs r = Inr ''Object''"
      using reference(1,2,3) by (rule getTypeName_reference)
    then show ?thesis using r no reference(1) by simp
  qed
qed

lemma resolveTypeF_Suc:
  "resolveTypeF n defs d = Inr ct \<Longrightarrow> resolveTypeF (Suc n) defs d = Inr ct"
proof (induction n arbitrary: d)
  case 0
  from "0.prems" show ?case
    by (cases rule: resolveTypeF_cases) (auto simp: resolveTypeF.simps [of "Suc 0" defs d])
next
  case (Suc n)
  from Suc.prems show ?case
  proof (cases rule: resolveTypeF_cases)
    case (named tn)
    then show ?thesis by (simp add: resolveTypeF.simps [of _ defs d])
  next
    case (inline sch)
    then show ?thesis by (simp add: resolveTypeF.simps [of _ defs d])
  next
    case (reference s r m)
    then have "resolveTypeF (Suc n) defs r = Inr ct"
      using Suc.IH [of r] by simp
    then show ?thesis using reference by (simp add: resolveTypeF.simps [of _ defs d])
  qed
qed

lemma resolveTypeF_mono:
  "resolveTypeF n defs d = Inr ct \<Longrightarrow> n \<le> m \<Longrightarrow> resolveTypeF m defs d = Inr ct"
  by (induction m) (auto simp: le_Suc_eq resolveTypeF_Suc)

lemma resolveTypeF_unique:
  assumes "resolveTypeF n defs d = Inr ct" and "resolveTypeF m defs d = Inr ct'"
  shows "ct' = ct"
proof (cases "n \<le> m")
  case True
  then show ?thesis using resolveTypeF_mono [OF assms(1) True] assms(2) by simp
next
  case False
  then have "m \<le> n" by simp
  then show ?thesis using resolveTypeF_mono [OF assms(2)] assms(1) by simp
qed

lemma assignType_assigned:
  "find P defs = Some d0 \<Longrightarrow> list_all2 (reassigned d0 ct) defs (assignType P ct defs)"
proof (induction defs)
  case Nil
  then show ?case by simp
next
  case (Cons x xs)
  then show ?case
    by (auto simp: reassigned_def list_all2_refl split: if_splits)
qed

lemma assigned_identifier: "reassigned d0 ct d d' \<Longrightarrow> identifier d' = identifier d"
  by (auto simp: reassigned_def)

lemma assigned_identifiers:
  "list_all2 (reassigned d0 ct) defs defs' \<Longrightarrow> validIdentifiers defs' = validIdentifiers defs"
  unfolding validIdentifiers_def
  by (induction rule: list_all2_induct) (auto dest: assigned_identifier)

lemma find_related:
  assumes "list_all2 R xs ys" and "\<And>x y. R x y \<Longrightarrow> Q y = Q x" and "find Q xs = Some x"
  shows "\<exists>y. find Q ys = Some y \<and> R x y"
  using assms(1,3)
proof (induction rule: list_all2_induct)
  case Nil
  then show ?case by simp
next
  case (Cons a as b bs)
  then show ?case using assms(2) [of a b] by (auto split: if_splits)
qed

lemma assigned_changed:
  assumes all: "list_all2 (reassigned d0 ct) defs defs'"
    and rt: "resolveType defs d0 = Inr ct"
  shows "getTypeNameF n defs' (d0\<lparr>type := ct\<rparr>) = Inr (typeNameOf ct)"
proof -
  have "concreteType (validIdentifiers defs) ct"
    using rt unfolding resolveType_def by (rule resolveTypeF_concrete)
  then have "concreteType (validIdentifiers defs') (type (d0\<lparr>type := ct\<rparr>))"
    using assigned_identifiers [OF all] by simp
  from getTypeNameF_concrete [OF this, of n] show ?thesis
    by (simp add: typeNameOf_def)
qed

lemma assigned_getTypeNameF:
  assumes all: "list_all2 (reassigned d0 ct) defs defs'"
    and rt: "resolveType defs d0 = Inr ct"
  shows "reassigned d0 ct d d' \<Longrightarrow> getTypeNameF n defs d = Inr t \<Longrightarrow> getTypeNameF n defs' d' = Inr t"
proof (induction n arbitrary: d d')
  case 0
  show ?case
  proof (cases "d' = d")
    case False
    then have d: "d = d0" "d' = d0\<lparr>type := ct\<rparr>"
      using "0.prems"(1) by (auto simp: reassigned_def)
    have "getTypeName defs d0 = Inr (typeNameOf ct)"
      using resolveTypeF_typeName [OF rt [unfolded resolveType_def]] by simp
    then have "typeNameOf ct = t"
      using "0.prems"(2) d(1) getTypeNameF_unique [of 0 defs d0 t "length defs" "typeNameOf ct"]
      by (simp add: getTypeName_def)
    then show ?thesis
      using assigned_changed [OF all rt, of 0] d by simp
  next
    case True
    then show ?thesis
      using "0.prems"(2) assigned_identifiers [OF all]
      by (auto simp: getTypeNameF.simps [of 0] split: dtype.splits if_splits option.splits)
  qed
next
  case (Suc n)
  show ?case
  proof (cases "d' = d")
    case False
    then have d: "d = d0" "d' = d0\<lparr>type := ct\<rparr>"
      using Suc.prems(1) by (auto simp: reassigned_def)
    have "getTypeName defs d0 = Inr (typeNameOf ct)"
      using resolveTypeF_typeName [OF rt [unfolded resolveType_def]] by simp
    then have "typeNameOf ct = t"
      using Suc.prems(2) d(1) getTypeNameF_unique [of "Suc n" defs d0 t "length defs" "typeNameOf ct"]
      by (simp add: getTypeName_def)
    then show ?thesis
      using assigned_changed [OF all rt, of "Suc n"] d by simp
  next
    case same: True
    show ?thesis
    proof (cases "type d")
      case (TObject sch)
      then show ?thesis using Suc.prems(2) same by (simp add: getTypeNameF.simps [of _ _ d])
    next
      case (TName s)
      show ?thesis
      proof (cases "s \<in> set (validIdentifiers defs)")
        case False
        then show ?thesis
          using Suc.prems(2) same TName assigned_identifiers [OF all]
          by (simp add: getTypeNameF.simps [of _ _ d])
      next
        case True
        then obtain r where r: "find (\<lambda>x. identifier x = s) defs = Some r"
          and rn: "getTypeNameF n defs r = Inr t"
          using Suc.prems(2) TName
          by (cases "find (\<lambda>x. identifier x = s) defs") (auto simp: getTypeNameF.simps [of _ defs d])
        obtain r' where r': "find (\<lambda>x. identifier x = s) defs' = Some r'" and rel: "reassigned d0 ct r r'"
          using find_related [OF all _ r] assigned_identifier by metis
        have "getTypeNameF n defs' r' = Inr t"
          using rel rn by (rule Suc.IH)
        then show ?thesis
          using same TName True r' assigned_identifiers [OF all]
          by (simp add: getTypeNameF.simps [of "Suc n" defs' d])
      qed
    qed
  qed
qed

lemma assigned_getTypeName:
  assumes all: "list_all2 (reassigned d0 ct) defs defs'"
    and rt: "resolveType defs d0 = Inr ct"
    and rel: "reassigned d0 ct d d'" and tn: "getTypeName defs d = Inr t"
  shows "getTypeName defs' d' = Inr t"
  using assigned_getTypeNameF [OF all rt rel tn [unfolded getTypeName_def]] list_all2_lengthD [OF all]
  by (simp add: getTypeName_def)


lemma resolveTypeF_changed:
  assumes all: "list_all2 (reassigned d0 ct) defs defs'"
    and rt: "resolveType defs d0 = Inr ct"
  shows "resolveTypeF n defs' (d0\<lparr>type := ct\<rparr>) = Inr ct"
proof -
  have tn: "getTypeName defs' (d0\<lparr>type := ct\<rparr>) = Inr (typeNameOf ct)"
    using assigned_changed [OF all rt] by (simp add: getTypeName_def)
  have no: "\<forall>tn. ct = TName tn \<longrightarrow> tn \<noteq> ''Object''"
    using resolveTypeF_typeName [OF rt [unfolded resolveType_def]] by simp
  show ?thesis
  proof (cases ct)
    case (TName s)
    then show ?thesis using tn no by (simp add: resolveTypeF.simps [of n] typeNameOf_def)
  next
    case (TObject sch)
    then show ?thesis using tn by (simp add: resolveTypeF.simps [of n] typeNameOf_def)
  qed
qed

lemma assigned_resolveTypeF:
  assumes all: "list_all2 (reassigned d0 ct) defs defs'"
    and rt: "resolveType defs d0 = Inr ct"
  shows "reassigned d0 ct d d' \<Longrightarrow> resolveTypeF n defs d = Inr T \<Longrightarrow> resolveTypeF n defs' d' = Inr T"
proof (induction n arbitrary: d d')
  case 0
  show ?case
  proof (cases "d' = d")
    case False
    then have d: "d = d0" "d' = d0\<lparr>type := ct\<rparr>"
      using "0.prems"(1) by (auto simp: reassigned_def)
    have "T = ct"
      using "0.prems"(2) d(1) rt resolveTypeF_unique [of 0 defs d0 T "length defs" ct]
      by (simp add: resolveType_def)
    then show ?thesis using resolveTypeF_changed [OF all rt, of 0] d by simp
  next
    case same: True
    from "0.prems"(2) show ?thesis
    proof (cases rule: resolveTypeF_cases)
      case (named tn)
      then have "getTypeName defs' d = Inr tn"
        using assigned_getTypeName [OF all rt, of d d tn] by (simp add: reassigned_def)
      then show ?thesis using named same by (simp add: resolveTypeF.simps [of 0 defs' d])
    next
      case (inline sch)
      then have "getTypeName defs' d = Inr ''Object''"
        using assigned_getTypeName [OF all rt, of d d "''Object''"] by (simp add: reassigned_def)
      then show ?thesis using inline same by (simp add: resolveTypeF.simps [of 0 defs' d])
    next
      case (reference s r m)
      then show ?thesis by simp
    qed
  qed
next
  case (Suc n)
  show ?case
  proof (cases "d' = d")
    case False
    then have d: "d = d0" "d' = d0\<lparr>type := ct\<rparr>"
      using Suc.prems(1) by (auto simp: reassigned_def)
    have "T = ct"
      using Suc.prems(2) d(1) rt resolveTypeF_unique [of "Suc n" defs d0 T "length defs" ct]
      by (simp add: resolveType_def)
    then show ?thesis using resolveTypeF_changed [OF all rt, of "Suc n"] d by simp
  next
    case same: True
    from Suc.prems(2) show ?thesis
    proof (cases rule: resolveTypeF_cases)
      case (named tn)
      then have "getTypeName defs' d = Inr tn"
        using assigned_getTypeName [OF all rt, of d d tn] by (simp add: reassigned_def)
      then show ?thesis using named same by (simp add: resolveTypeF.simps [of _ defs' d])
    next
      case (inline sch)
      then have "getTypeName defs' d = Inr ''Object''"
        using assigned_getTypeName [OF all rt, of d d "''Object''"] by (simp add: reassigned_def)
      then show ?thesis using inline same by (simp add: resolveTypeF.simps [of _ defs' d])
    next
      case (reference s r m)
      have tn: "getTypeName defs' d = Inr ''Object''"
        using reference(1) assigned_getTypeName [OF all rt, of d d "''Object''"] by (simp add: reassigned_def)
      obtain r' where r': "find (\<lambda>x. identifier x = s) defs' = Some r'" and rel: "reassigned d0 ct r r'"
        using find_related [OF all _ reference(3)] assigned_identifier by metis
      have "resolveTypeF n defs' r' = Inr T"
        using rel reference(4,5) Suc.IH [of r r'] by simp
      then show ?thesis
        using same tn reference(2) r' by (simp add: resolveTypeF.simps [of "Suc n" defs' d])
    qed
  qed
qed

lemma assigned_resolveType:
  assumes all: "list_all2 (reassigned d0 ct) defs defs'"
    and rt: "resolveType defs d0 = Inr ct"
    and rel: "reassigned d0 ct d d'" and res: "resolveType defs d = Inr T"
  shows "resolveType defs' d' = Inr T"
  using assigned_resolveTypeF [OF all rt rel res [unfolded resolveType_def]] list_all2_lengthD [OF all]
  by (simp add: resolveType_def)

lemma keepsResolution_refl: "keepsResolution defs defs"
  by (simp add: keepsResolution_def list_all2_refl)

lemma keepsResolution_trans:
  assumes "keepsResolution a b" and "keepsResolution b c"
  shows "keepsResolution a c"
  using assms unfolding keepsResolution_def
proof (rule list_all2_trans [rotated])
  fix x y z
  assume xy: "y\<lparr>type := type x\<rparr> = x
        \<and> (\<forall>t. getTypeName a x = Inr t \<longrightarrow> getTypeName b y = Inr t)
        \<and> (\<forall>ct. resolveType a x = Inr ct \<longrightarrow> resolveType b y = Inr ct)"
    and yz: "z\<lparr>type := type y\<rparr> = y
        \<and> (\<forall>t. getTypeName b y = Inr t \<longrightarrow> getTypeName c z = Inr t)
        \<and> (\<forall>ct. resolveType b y = Inr ct \<longrightarrow> resolveType c z = Inr ct)"
  have "z\<lparr>type := type x\<rparr> = z\<lparr>type := type y\<rparr>\<lparr>type := type x\<rparr>"
    by simp
  also have "\<dots> = x"
    using xy yz by simp
  finally show "z\<lparr>type := type x\<rparr> = x
        \<and> (\<forall>t. getTypeName a x = Inr t \<longrightarrow> getTypeName c z = Inr t)
        \<and> (\<forall>ct. resolveType a x = Inr ct \<longrightarrow> resolveType c z = Inr ct)"
    using xy yz by simp
qed

lemma resolveDefinition_keepsResolution:
  assumes "resolveDefinition w ident ver = (r, w1)"
  shows "keepsResolution (definitions w) (definitions w1)"
  using assms
proof (cases rule: resolveDefinition_world)
  case same
  then show ?thesis by (simp add: keepsResolution_refl)
next
  case (assigned d0 t ct)
  let ?defs = "definitions w"
  let ?defs' = "assignType (matches ident ver) ct ?defs"
  have all: "list_all2 (reassigned d0 ct) ?defs ?defs'"
    using assigned(2) by (rule assignType_assigned)
  have "list_all2 (\<lambda>d d'. d'\<lparr>type := type d\<rparr> = d
        \<and> (\<forall>t. getTypeName ?defs d = Inr t \<longrightarrow> getTypeName ?defs' d' = Inr t)
        \<and> (\<forall>ct. resolveType ?defs d = Inr ct \<longrightarrow> resolveType ?defs' d' = Inr ct)) ?defs ?defs'"
    using all
  proof (rule list_all2_mono)
    fix d d'
    assume rel: "reassigned d0 ct d d'"
    have "d'\<lparr>type := type d\<rparr> = d"
      using rel by (auto simp: reassigned_def)
    then show "d'\<lparr>type := type d\<rparr> = d
        \<and> (\<forall>t. getTypeName ?defs d = Inr t \<longrightarrow> getTypeName ?defs' d' = Inr t)
        \<and> (\<forall>ct. resolveType ?defs d = Inr ct \<longrightarrow> resolveType ?defs' d' = Inr ct)"
      using assigned_getTypeName [OF all assigned(4) rel] assigned_resolveType [OF all assigned(4) rel]
      by blast
  qed
  then show ?thesis
    by (simp add: keepsResolution_def assigned(6))
qed

section \<open>Required fields of a composite\<close>

lemma keepsResolution_identifiers:
  "keepsResolution defs defs' \<Longrightarrow> validIdentifiers defs' = validIdentifiers defs"
  unfolding keepsResolution_def validIdentifiers_def
  by (induction rule: list_all2_induct) (auto dest: arg_cong [where f = "identifier"])

lemma isValid_type: "isValid v t (d\<lparr>type := x\<rparr>) = isValid v t d"
  by (cases v) (simp_all add: isValid_def)

lemma spec_satisfiesConstraints_type:
  "spec_satisfiesConstraints v t (d\<lparr>type := x\<rparr>) = spec_satisfiesConstraints v t d"
  by (cases v)
     (auto simp: spec_satisfiesConstraints_def spec_respectsMinimum_def spec_respectsMaximum_def
        split: option.splits)

lemma isValid_Number_spec:
  "isValid (JNum n) ''Number'' d \<longleftrightarrow> spec_respectsMinimum d n \<and> spec_respectsMaximum d n"
  by (cases "minimum d"; cases "maximum d"; cases "exclusiveMinimum d"; cases "exclusiveMaximum d")
     (auto simp: isValid_def spec_respectsMinimum_def spec_respectsMaximum_def isOn_def
        gt_bound_def ge_bound_def lt_bound_def le_bound_def)

lemma spec_satisfiesConstraints_valid:
  assumes "spec_satisfiesConstraints v t d" and "t = ''String'' \<longrightarrow> maximumLength d = None"
  shows "isValid v t d"
proof -
  consider (str) "t = ''String''" | (num) "t = ''Number''" | (bool) "t = ''Boolean''"
    using assms(1) by (auto simp: spec_satisfiesConstraints_def split: if_splits)
  then show ?thesis
  proof cases
    case str
    then obtain s where v: "v = JStr s"
      using assms(1) by (cases v) (simp_all add: spec_satisfiesConstraints_def)
    have "maximumLength d = None"
      using assms(2) str by simp
    then show ?thesis
      using assms(1) str v
      by (auto simp: spec_satisfiesConstraints_def isValid_def isSet_def ge_bound_def
          split: option.splits)
  next
    case num
    then obtain n where v: "v = JNum n"
      using assms(1) by (cases v) (simp_all add: spec_satisfiesConstraints_def)
    show ?thesis
      using assms(1) num v by (simp add: isValid_Number_spec spec_satisfiesConstraints_def)
  next
    case bool
    then show ?thesis
      using assms(1) by (cases v) (simp_all add: spec_satisfiesConstraints_def isValid_def)
  qed
qed

lemma accepts_kept:
  "accepts defs ident ver v \<Longrightarrow> keepsResolution defs defs' \<Longrightarrow> accepts defs' ident ver v"
proof (induction defs ident ver v rule: accepts.induct)
  case (1 defs ident ver v)
  let ?R = "\<lambda>d d'. d'\<lparr>type := type d\<rparr> = d
        \<and> (\<forall>t. getTypeName defs d = Inr t \<longrightarrow> getTypeName defs' d' = Inr t)
        \<and> (\<forall>ct. resolveType defs d = Inr ct \<longrightarrow> resolveType defs' d' = Inr ct)"
  have all: "list_all2 ?R defs defs'"
    using "1.prems"(2) by (simp add: keepsResolution_def)
  have ids: "validIdentifiers defs' = validIdentifiers defs"
    using "1.prems"(2) by (rule keepsResolution_identifiers)
  from "1.prems"(1) have known: "ident \<in> set (validIdentifiers defs)"
    and att: "\<not> isAttestableValue v"
    by (simp_all add: accepts.simps [of defs ident ver v])
  from "1.prems"(1) obtain d where found: "find (matches ident ver) defs = Some d"
    by (cases "find (matches ident ver) defs") (simp_all add: accepts.simps [of defs ident ver v])
  from "1.prems"(1) found obtain t where tn: "getTypeName defs d = Inr t"
    by (cases "getTypeName defs d") (simp_all add: accepts.simps [of defs ident ver v])
  from "1.prems"(1) found tn obtain ct where rt: "resolveType defs d = Inr ct"
    by (cases "resolveType defs d") (simp_all add: accepts.simps [of defs ident ver v])
  from "1.prems"(1) found tn rt
  have body: "if isValueOfType v t then
                 spec_satisfiesConstraints v t d \<and> (t = ''String'' \<longrightarrow> maximumLength d = None)
               else (case v of
                       JObj kvs \<Rightarrow>
                         propertiesOf ct \<noteq> [] \<and> arrayLength v = None \<and>
                         list_all (\<lambda>r. truthy (getProp v r)) (requiredOf ct) \<and>
                         (\<forall>kv \<in> set kvs.
                            case find (\<lambda>p. name p = fst kv) (propertiesOf ct) of
                              None \<Rightarrow> False
                            | Some p \<Rightarrow> accepts defs (ptype p) (pversion p) (snd kv))
                     | _ \<Rightarrow> False)"
    by (simp add: accepts.simps [of defs ident ver v] split: if_splits)
  have "matches ident ver y = matches ident ver x" if "?R x y" for x y
  proof -
    have "matches ident ver (y\<lparr>type := type x\<rparr>) = matches ident ver y"
      by (simp add: matches_def)
    then show ?thesis using that by simp
  qed
  from find_related [OF all this found]
  obtain d' where found': "find (matches ident ver) defs' = Some d'" and rel: "?R d d'"
    by blast
  have tn': "getTypeName defs' d' = Inr t" and rt': "resolveType defs' d' = Inr ct"
    using rel tn rt by simp_all
  have valid: "spec_satisfiesConstraints v t d' = spec_satisfiesConstraints v t d"
    using rel spec_satisfiesConstraints_type [where v = v and t = t and d = d' and x = "type d"] by simp
  have "maximumLength (d'\<lparr>type := type d\<rparr>) = maximumLength d'"
    by simp
  then have maxlen: "maximumLength d' = maximumLength d"
    using rel by simp
  have body': "if isValueOfType v t then
                 spec_satisfiesConstraints v t d' \<and> (t = ''String'' \<longrightarrow> maximumLength d' = None)
               else (case v of
                       JObj kvs \<Rightarrow>
                         propertiesOf ct \<noteq> [] \<and> arrayLength v = None \<and>
                         list_all (\<lambda>r. truthy (getProp v r)) (requiredOf ct) \<and>
                         (\<forall>kv \<in> set kvs.
                            case find (\<lambda>p. name p = fst kv) (propertiesOf ct) of
                              None \<Rightarrow> False
                            | Some p \<Rightarrow> accepts defs' (ptype p) (pversion p) (snd kv))
                     | _ \<Rightarrow> False)"
  proof (cases "isValueOfType v t")
    case True
    then show ?thesis using body valid maxlen by simp
  next
    case False
    then obtain kvs where v: "v = JObj kvs"
      using body by (cases v) auto
    have "accepts defs' (ptype p) (pversion p) (snd kv)"
      if "kv \<in> set kvs" and "find (\<lambda>p. name p = fst kv) (propertiesOf ct) = Some p" for kv p
    proof -
      have "accepts defs (ptype p) (pversion p) (snd kv)"
        using body False v that by (auto split: option.splits)
      then show ?thesis
        using "1.IH" [OF found tn rt False v that(1,2)] "1.prems"(2) by simp
    qed
    then show ?thesis
      using body False v by (auto split: option.splits)
  qed
  show ?case
    using known att ids found' tn' rt' body'
    by (simp add: accepts.simps [of defs' ident ver v])
qed


lemma construction_keepsResolution:
  assumes "UCABaseConstructor e w ident v ver = (r, w')"
  shows "keepsResolution (definitions w) (definitions w')"
proof -
  let ?Rel = "\<lambda>a b. keepsResolution (definitions a) (definitions b)"
  have frame: "?Rel a b" if "definitions b = definitions a" for a b
    using that by (simp add: keepsResolution_refl)
  have trans: "?Rel a c" if "?Rel a b" and "?Rel b c" for a b c
    using that by (rule keepsResolution_trans)
  have step: "?Rel a b" if "resolveDefinition a i vr = (x, b)" for a i vr x b
    using that by (rule resolveDefinition_keepsResolution)
  show ?thesis
    using world_relation_all(1) [of ?Rel, OF frame trans step assms] .
qed

lemma getAttestableValue_id:
  "getAttestableValue (UCA ts i ident ver t v sa) = getAttestableValue (UCA ts [] ident ver t v sa)"
  by (simp add: getAttestableValue.simps)

lemma finish_commits:
  assumes "finish e w ident vers t ts v sa = (Inr u, w')"
  shows "\<exists>s. getAttestableValue u = Inr s"
  using finish_Inr [OF assms] getAttestableValue_id by metis

lemma constructed_commits:
  assumes "UCABaseConstructor e w ident v ver = (Inr u, w')"
  shows "\<exists>s. getAttestableValue u = Inr s"
  using assms by (cases rule: UCABaseConstructor_success) (erule finish_commits)+

lemma joinChildren_succeeds:
  "\<forall>k \<in> set ks. \<exists>s. map_of m k = Some (Inr s) \<Longrightarrow> \<exists>r. joinChildren ks m = Inr r"
  by (induction ks) auto

lemma composite_commits:
  assumes "\<forall>kc \<in> set kvs. \<exists>s. getAttestableValue (snd kc) = Inr s"
  shows "\<exists>s. getAttestableValue (UCA ts i ident ver ''Object'' (Children kvs) sa) = Inr s"
proof -
  have "\<exists>s. map_of (map (\<lambda>(k, c). (k, getAttestableValue c)) kvs) k = Some (Inr s)"
    if "k \<in> set (sort (map fst kvs))" for k
  proof -
    from that obtain c where "map_of kvs k = Some c"
      by (cases "map_of kvs k") (auto simp: map_of_eq_None_iff)
    moreover from this have "(k, c) \<in> set kvs"
      by (rule map_of_SomeD)
    ultimately show ?thesis
      using assms by (simp only: map_of_map comp_apply option.map) auto
  qed
  then have "\<exists>r. joinChildren (sort (map fst kvs)) (map (\<lambda>(k, c). (k, getAttestableValue c)) kvs) = Inr r"
    by (intro joinChildren_succeeds) blast
  then show ?thesis
    by (simp only: getAttestableValue_Object)
qed

lemma resolveDefinition_success:
  assumes "ident \<in> set (validIdentifiers (definitions w))"
    and "find (matches ident ver) (definitions w) = Some d"
    and "getTypeName (definitions w) d = Inr t" and "resolveType (definitions w) d = Inr ct"
  shows "resolveDefinition w ident ver
         = (Inr (d\<lparr>type := ct\<rparr>, if given ver then the ver else version d, t),
            w\<lparr>definitions := assignType (matches ident ver) ct (definitions w)\<rparr>)"
  using assms by (simp add: resolveDefinition_def)

lemma UCABaseConstructor_raw:
  assumes "resolveDefinition w ident ver = (Inr (d, vers, t), w1)"
    and "\<not> isAttestableValue v" and "isValueOfType v t" and "isValid v t d"
  shows "UCABaseConstructor e w ident v ver
         = finish e (w1\<lparr>ticks := Suc (ticks w1), draws := Suc (draws w1)\<rparr>) ident vers t
             (Some (now e (ticks w1))) (Raw v) (Some (sha256hex e (wordWith e (draws w1))))"
  using assms by (simp add: UCABaseConstructor.simps Let_def)

lemma UCABaseConstructor_nested:
  assumes "resolveDefinition w ident ver = (Inr (d, vers, t), w1)"
    and "\<not> isAttestableValue v" and "\<not> isValueOfType v t" and "propertiesOf (type d) \<noteq> []"
    and "hasRequireds e (type d) v = Inr True" and "entriesOf v = Inr kvs"
    and "constructProperties e w1 (propertiesOf (type d)) kvs = (Inr pairs, w2)"
  shows "UCABaseConstructor e w ident v ver = finish e w2 ident vers t None (Children (keyBy pairs)) None"
  using assms by (simp add: UCABaseConstructor.simps)

lemma UCABaseConstructor_missing:
  assumes "resolveDefinition w ident ver = (Inr (d, vers, t), w1)"
    and "\<not> isAttestableValue v" and "\<not> isValueOfType v t" and "propertiesOf (type d) \<noteq> []"
    and "hasRequireds e (type d) v = Inr False"
  shows "UCABaseConstructor e w ident v ver = (Inl (MissingRequiredField ident), w1)"
  using assms by (simp add: UCABaseConstructor.simps)


lemma accepts_unfold:
  assumes "accepts defs ident ver v"
  obtains d t ct where
    "ident \<in> set (validIdentifiers defs)" "\<not> isAttestableValue v"
    "find (matches ident ver) defs = Some d"
    "getTypeName defs d = Inr t" "resolveType defs d = Inr ct"
    "isValueOfType v t \<Longrightarrow> isValid v t d"
    "\<not> isValueOfType v t \<Longrightarrow> \<exists>kvs. v = JObj kvs \<and> propertiesOf ct \<noteq> [] \<and> arrayLength v = None
        \<and> list_all (\<lambda>r. truthy (getProp v r)) (requiredOf ct)
        \<and> (\<forall>kv \<in> set kvs. \<exists>p. find (\<lambda>p. name p = fst kv) (propertiesOf ct) = Some p
              \<and> accepts defs (ptype p) (pversion p) (snd kv))"
proof -
  from assms have known: "ident \<in> set (validIdentifiers defs)"
    and att: "\<not> isAttestableValue v"
    by (simp_all add: accepts.simps [of defs ident ver v])
  from assms obtain d where found: "find (matches ident ver) defs = Some d"
    by (cases "find (matches ident ver) defs") (simp_all add: accepts.simps [of defs ident ver v])
  from assms found obtain t where tn: "getTypeName defs d = Inr t"
    by (cases "getTypeName defs d") (simp_all add: accepts.simps [of defs ident ver v])
  from assms found tn obtain ct where rt: "resolveType defs d = Inr ct"
    by (cases "resolveType defs d") (simp_all add: accepts.simps [of defs ident ver v])
  from assms found tn rt
  have body: "if isValueOfType v t then
                 spec_satisfiesConstraints v t d \<and> (t = ''String'' \<longrightarrow> maximumLength d = None)
               else (case v of
                       JObj kvs \<Rightarrow>
                         propertiesOf ct \<noteq> [] \<and> arrayLength v = None \<and>
                         list_all (\<lambda>r. truthy (getProp v r)) (requiredOf ct) \<and>
                         (\<forall>kv \<in> set kvs.
                            case find (\<lambda>p. name p = fst kv) (propertiesOf ct) of
                              None \<Rightarrow> False
                            | Some p \<Rightarrow> accepts defs (ptype p) (pversion p) (snd kv))
                     | _ \<Rightarrow> False)"
    by (simp add: accepts.simps [of defs ident ver v] split: if_splits)
  have raw: "isValid v t d" if "isValueOfType v t"
    using body that by (simp add: spec_satisfiesConstraints_valid)
  have nested: "\<exists>kvs. v = JObj kvs \<and> propertiesOf ct \<noteq> [] \<and> arrayLength v = None
        \<and> list_all (\<lambda>r. truthy (getProp v r)) (requiredOf ct)
        \<and> (\<forall>kv \<in> set kvs. \<exists>p. find (\<lambda>p. name p = fst kv) (propertiesOf ct) = Some p
              \<and> accepts defs (ptype p) (pversion p) (snd kv))" if "\<not> isValueOfType v t"
  proof -
    from body that obtain kvs where v: "v = JObj kvs"
      by (cases v) auto
    have "\<exists>p. find (\<lambda>p. name p = fst kv) (propertiesOf ct) = Some p
              \<and> accepts defs (ptype p) (pversion p) (snd kv)" if "kv \<in> set kvs" for kv
      using body \<open>\<not> isValueOfType v t\<close> v that
      by (cases "find (\<lambda>p. name p = fst kv) (propertiesOf ct)") auto
    then show ?thesis
      using body \<open>\<not> isValueOfType v t\<close> v by auto
  qed
  show thesis
    using that [OF known att found tn rt raw nested] by blast
qed

lemma children_kept:
  assumes "\<forall>kv \<in> set kvs. \<exists>p. find (\<lambda>p. name p = fst kv) ps = Some p
        \<and> accepts defs (ptype p) (pversion p) (snd kv)"
    and "keepsResolution defs defs'"
  shows "\<forall>kv \<in> set kvs. \<exists>p. find (\<lambda>p. name p = fst kv) ps = Some p
        \<and> accepts defs' (ptype p) (pversion p) (snd kv)"
proof
  fix kv
  assume "kv \<in> set kvs"
  then obtain p where "find (\<lambda>p. name p = fst kv) ps = Some p"
    and "accepts defs (ptype p) (pversion p) (snd kv)"
    using assms(1) by blast
  then show "\<exists>p. find (\<lambda>p. name p = fst kv) ps = Some p \<and> accepts defs' (ptype p) (pversion p) (snd kv)"
    using accepts_kept [OF _ assms(2)] by blast
qed

lemma getMember_own:
  "truthy (getProp (JObj kvs) r) \<Longrightarrow> truthy (getMember e (JObj kvs) r)"
  by (cases "map_of kvs r") simp_all

lemma hasRequireds_present:
  assumes "list_all (\<lambda>r. truthy (getProp (JObj kvs) r)) (requiredOf ct)"
  shows "hasRequireds e ct (JObj kvs) = Inr True"
proof -
  have "list_all (\<lambda>r. truthy (getMember e (JObj kvs) r)) (requiredOf ct)"
    using assms getMember_own [of kvs _ e] unfolding list_all_iff by blast
  then show ?thesis
    by (simp add: hasRequireds_def)
qed

lemma accepted_succeeds:
  "accepts (definitions w) ident ver v \<Longrightarrow> \<exists>u w'. UCABaseConstructor e w ident v ver = (Inr u, w')"
  "\<forall>kv \<in> set kvs. \<exists>p. find (\<lambda>p. name p = fst kv) ps = Some p
        \<and> accepts (definitions w) (ptype p) (pversion p) (snd kv)
     \<Longrightarrow> \<exists>pairs w'. constructProperties e w ps kvs = (Inr pairs, w')
          \<and> (\<forall>kc \<in> set pairs. \<exists>s. getAttestableValue (snd kc) = Inr s)"
  "reconstructProperties e w ps cs acc = reconstructProperties e w ps cs acc"
proof (induction e w ident v ver and e w ps kvs and e w ps cs acc
    rule: UCABaseConstructor_constructProperties_reconstructProperties.induct)
  case (1 e w ident v ver)
  from "1.prems" show ?case
  proof (cases rule: accepts_unfold)
    case (1 d0 t ct)
    note known = 1(1) and att = 1(2) and found = 1(3) and tn = 1(4) and rt = 1(5)
    let ?d = "d0\<lparr>type := ct\<rparr>"
    let ?vers = "if given ver then the ver else version d0"
    let ?w1 = "w\<lparr>definitions := assignType (matches ident ver) ct (definitions w)\<rparr>"
    have res: "resolveDefinition w ident ver = (Inr (?d, ?vers, t), ?w1)"
      using known found tn rt by (rule resolveDefinition_success)
    show ?thesis
    proof (cases "isValueOfType v t")
      case True
      then have "isValid v t ?d"
        using 1(6) by (simp add: isValid_type)
      from UCABaseConstructor_raw [OF res att True this]
      show ?thesis
        by (simp add: finish_def getAttestableValue_raw [OF True])
    next
      case False
      from 1(7) [OF False] obtain kvs where v: "v = JObj kvs" and props: "propertiesOf ct \<noteq> []"
        and plain: "arrayLength v = None"
        and req: "list_all (\<lambda>r. truthy (getProp v r)) (requiredOf ct)"
        and children: "\<forall>kv \<in> set kvs. \<exists>p. find (\<lambda>p. name p = fst kv) (propertiesOf ct) = Some p
              \<and> accepts (definitions w) (ptype p) (pversion p) (snd kv)"
        by blast
      have has: "hasRequireds e (type ?d) v = Inr True"
        using req v by (simp add: hasRequireds_present)
      have entries: "entriesOf v = Inr kvs"
        using plain by (simp add: v entriesOf_def)
      have kept: "keepsResolution (definitions w) (definitions ?w1)"
        using res by (rule resolveDefinition_keepsResolution)
      have children1: "\<forall>kv \<in> set kvs. \<exists>p. find (\<lambda>p. name p = fst kv) (propertiesOf (type ?d)) = Some p
              \<and> accepts (definitions ?w1) (ptype p) (pversion p) (snd kv)"
        using children_kept [OF children kept] by simp
      have props1: "propertiesOf (type ?d) \<noteq> []"
        using props by simp
      from "1.IH"(2) [OF res [symmetric] refl refl refl att False props1 has _ entries children1]
      obtain pairs w2 where run: "constructProperties e ?w1 (propertiesOf (type ?d)) kvs = (Inr pairs, w2)"
        and commits: "\<forall>kc \<in> set pairs. \<exists>s. getAttestableValue (snd kc) = Inr s"
        by auto
      have "getTypeName (definitions w) d0 = Inr (typeNameOf ct)"
        using resolveTypeF_typeName [OF rt [unfolded resolveType_def]] by simp
      moreover have "typeNameOf ct = ''Object''"
        using props by (cases ct) (simp_all add: propertiesOf_def typeNameOf_def)
      ultimately have t: "t = ''Object''"
        using tn by simp
      have "\<forall>kc \<in> set (keyBy pairs). \<exists>s. getAttestableValue (snd kc) = Inr s"
        using commits by (rule keyBy_preserves)
      then obtain s where "getAttestableValue (UCA None [] ident ?vers ''Object'' (Children (keyBy pairs)) None) = Inr s"
        using composite_commits by blast
      then show ?thesis
        using UCABaseConstructor_nested [OF res att False props1 has entries run] t
        by (simp add: finish_def)
    qed
  qed
next
  case (2 e w ps)
  then show ?case by simp
next
  case (3 e w ps k v rest)
  from "3.prems" obtain p where p: "find (\<lambda>p. name p = k) ps = Some p"
    and acc: "accepts (definitions w) (ptype p) (pversion p) v"
    by auto
  from "3.IH"(1) [OF p acc] obtain uca w1 where
    run: "UCABaseConstructor e w (ptype p) v (pversion p) = (Inr uca, w1)"
    by blast
  have kept: "keepsResolution (definitions w) (definitions w1)"
    using run by (rule construction_keepsResolution)
  have "\<forall>kv \<in> set rest. \<exists>p. find (\<lambda>p. name p = fst kv) ps = Some p
        \<and> accepts (definitions w1) (ptype p) (pversion p) (snd kv)"
    using children_kept [OF _ kept, of rest ps] "3.prems" by simp
  from "3.IH"(2) [OF p run [symmetric] refl this]
  obtain pairs w2 where rest: "constructProperties e w1 ps rest = (Inr pairs, w2)"
    and commits: "\<forall>kc \<in> set pairs. \<exists>s. getAttestableValue (snd kc) = Inr s"
    by blast
  have "constructProperties e w ps ((k, v) # rest) = (Inr ((k, uca) # pairs), w2)"
    using p run rest by (simp add: UCABaseConstructor.simps)
  then show ?case
    using commits constructed_commits [OF run] by auto
next
  case (4 e w ps ucaValue)
  show ?case ..
next
  case (5 e w ps c rest ucaValue)
  show ?case ..
qed

text \<open>
  C4, as the code has it. Take a composite definition (its concrete type is an
  object schema) with declared properties, and an input mapping that is no
  commitment. If the mapping owns no property under some required name, and that
  name is not one of the members that every object inherits, the constructor throws
  \<^verbatim>\<open>Missing required fields\<close>. If the mapping is not array-like, owns every
  required name with a truthy value, and every key of it is a declared property
  whose value is admitted for the property's own definition (of its type and within
  the constraints as the specification words them, the definition of a string
  declaring no maximum length; and so on for a mapping), the construction succeeds.
\<close>

theorem required_fields:
  assumes known: "ident \<in> set (validIdentifiers (definitions w))"
    and found: "find (matches ident ver) (definitions w) = Some d"
    and composite: "resolveType (definitions w) d = Inr (TObject sch)"
    and props: "properties sch \<noteq> []"
    and plain: "\<not> isAttestableValue (JObj kvs)"
  shows "((\<exists>r \<in> set (required sch). map_of kvs r = None \<and> r \<notin> set objectPrototype) \<longrightarrow>
           fst (UCABaseConstructor e w ident (JObj kvs) ver) = Inl (MissingRequiredField ident))
    \<and> (arrayLength (JObj kvs) = None
         \<and> (\<forall>r \<in> set (required sch). truthy (getProp (JObj kvs) r))
         \<and> (\<forall>kv \<in> set kvs. \<exists>p. find (\<lambda>p. name p = fst kv) (properties sch) = Some p
               \<and> accepts (definitions w) (ptype p) (pversion p) (snd kv)) \<longrightarrow>
           (\<exists>u w'. UCABaseConstructor e w ident (JObj kvs) ver = (Inr u, w')))"
proof -
  let ?v = "JObj kvs"
  have tn: "getTypeName (definitions w) d = Inr ''Object''"
    using resolveTypeF_typeName [OF composite [unfolded resolveType_def]] by (simp add: typeNameOf_def)
  have nt: "\<not> isValueOfType ?v ''Object''"
    by (simp add: isValueOfType_def)
  have res: "resolveDefinition w ident ver
         = (Inr (d\<lparr>type := TObject sch\<rparr>, if given ver then the ver else version d, ''Object''),
            w\<lparr>definitions := assignType (matches ident ver) (TObject sch) (definitions w)\<rparr>)"
    using known found tn composite by (rule resolveDefinition_success)
  have missing: "fst (UCABaseConstructor e w ident ?v ver) = Inl (MissingRequiredField ident)"
    if "\<exists>r \<in> set (required sch). map_of kvs r = None \<and> r \<notin> set objectPrototype"
  proof -
    from that obtain r where r: "r \<in> set (required sch)" and "map_of kvs r = None"
      and "r \<notin> set objectPrototype"
      by blast
    then have "\<not> truthy (getMember e ?v r)"
      by simp
    then have "\<not> list_all (\<lambda>r. truthy (getMember e ?v r)) (required sch)"
      using r unfolding list_all_iff by blast
    moreover have "required sch \<noteq> []"
      using r by auto
    ultimately have "hasRequireds e (type (d\<lparr>type := TObject sch\<rparr>)) ?v = Inr False"
      by (simp add: hasRequireds_def requiredOf_def)
    from UCABaseConstructor_missing [OF res plain nt _ this] props show ?thesis
      by (simp add: propertiesOf_def)
  qed
  have succeeds: "\<exists>u w'. UCABaseConstructor e w ident ?v ver = (Inr u, w')"
    if own: "arrayLength ?v = None"
      and req: "\<forall>r \<in> set (required sch). truthy (getProp ?v r)"
      and children: "\<forall>kv \<in> set kvs. \<exists>p. find (\<lambda>p. name p = fst kv) (properties sch) = Some p
               \<and> accepts (definitions w) (ptype p) (pversion p) (snd kv)"
  proof -
    have "\<forall>kv \<in> set kvs.
            (case find (\<lambda>p. name p = fst kv) (properties sch) of
               None \<Rightarrow> False
             | Some p \<Rightarrow> accepts (definitions w) (ptype p) (pversion p) (snd kv))"
      using children by fastforce
    then have "accepts (definitions w) ident ver ?v"
      using known plain found tn composite nt props req own
      by (simp add: accepts.simps [of _ ident ver ?v] propertiesOf_def requiredOf_def list_all_iff)
    then show ?thesis
      by (rule accepted_succeeds(1))
  qed
  show ?thesis
    using missing succeeds by blast
qed

theorem required_fields_witness:
  "fst (UCABaseConstructor demoEnv profileWorld ''ns:Person:profile''
          (JObj [(''name'', JObj [(''first'', JStr ''Ann'')])]) None)
     = Inl (MissingRequiredField ''ns:Person:profile'')
   \<and> (\<exists>u w'. UCABaseConstructor demoEnv profileWorld ''ns:Person:profile''
          (JObj [(''age'', JNum 42), (''name'', JObj [(''first'', JStr ''Ann'')])]) None = (Inr u, w'))"
proof -
  let ?sch = "\<lparr>properties =
        [\<lparr>name = ''age'', ptype = ''ns:Person:age'', pversion = None\<rparr>,
         \<lparr>name = ''name'', ptype = ''ns:Person:name'', pversion = None\<rparr>],
        required = [''age'']\<rparr>"
  let ?name = "JObj [(''first'', JStr ''Ann'')]"
  have known: "''ns:Person:profile'' \<in> set (validIdentifiers (definitions profileWorld))"
    by (simp add: profileWorld_def demo_defs personProfile_def validIdentifiers_def)
  have found: "find (matches ''ns:Person:profile'' None) (definitions profileWorld) = Some personProfile"
    by (simp add: profileWorld_def demo_defs personProfile_def matches_def given_def)
  have composite: "resolveType (definitions profileWorld) personProfile = Inr (TObject ?sch)"
    by code_simp
  have props: "properties ?sch \<noteq> []"
    by simp
  have plain1: "\<not> isAttestableValue (JObj [(''name'', ?name)])"
    and plain2: "\<not> isAttestableValue (JObj [(''age'', JNum 42), (''name'', ?name)])"
    by (simp_all add: isAttestableValue_def)
  have inherited: "''age'' \<notin> set objectPrototype"
    by (simp add: objectPrototype_def)
  have own: "arrayLength (JObj [(''age'', JNum 42), (''name'', ?name)]) = None"
    by (simp add: arrayLength_def)
  have age: "accepts (definitions profileWorld) ''ns:Person:age'' None (JNum 42)"
    by code_simp
  have name: "accepts (definitions profileWorld) ''ns:Person:name'' None ?name"
    by code_simp
  have first: "fst (UCABaseConstructor demoEnv profileWorld ''ns:Person:profile''
          (JObj [(''name'', ?name)]) None) = Inl (MissingRequiredField ''ns:Person:profile'')"
    using required_fields [OF known found composite props plain1, of demoEnv] inherited by simp
  have second: "\<exists>u w'. UCABaseConstructor demoEnv profileWorld ''ns:Person:profile''
          (JObj [(''age'', JNum 42), (''name'', ?name)]) None = (Inr u, w')"
    using required_fields [OF known found composite props plain2, of demoEnv] own age name by simp
  from first second show ?thesis ..
qed

text \<open>
  The claim as the specification states it fails: a value of the declared type is
  not enough. The mapping \<^verbatim>\<open>{age: 200}\<close> supplies the only required name with a
  number, and the construction fails because 200 exceeds the maximum of
  \<^verbatim>\<open>ns:Person:age\<close>.
\<close>

theorem invalid_required_value_rejected:
  "fst (UCABaseConstructor demoEnv profileWorld ''ns:Person:profile'' (JObj [(''age'', JNum 200)]) None)
     = Inl (InvalidValue ''ns:Person:age'')"
  by code_simp

text \<open>
  Line 152 tests the truthiness of \<^verbatim>\<open>value[required]\<close>, so a required name that is
  present with the value \<^verbatim>\<open>0\<close>, \<^verbatim>\<open>""\<close> or \<^verbatim>\<open>false\<close> is reported as missing,
  and a required name that the mapping does not own but every object inherits, such
  as \<^verbatim>\<open>constructor\<close>, is not. A mapping that owns a numeric \<^verbatim>\<open>length\<close> is walked
  by \<^verbatim>\<open>_.map\<close> as an array: \<^verbatim>\<open>{length: 3, width: 2}\<close> raises a \<^verbatim>\<open>TypeError\<close>
  although both names are declared properties.
\<close>

lemma falsy_required_value_reported_missing:
  "fst (UCABaseConstructor demoEnv profileWorld ''ns:Person:profile'' (JObj [(''age'', JNum 0)]) None)
     = Inl (MissingRequiredField ''ns:Person:profile'')"
  by code_simp

lemma inherited_required_name_not_reported:
  "map_sum id uca_type
     (fst (UCABaseConstructor demoEnv boxWorld ''ns:Box:size'' (JObj [(''width'', JNum 2)]) None))
     = Inr ''Object''"
  by code_simp

lemma array_like_mapping_rejected:
  "fst (UCABaseConstructor demoEnv boxWorld ''ns:Box:size''
          (JObj [(''length'', JNum 3), (''width'', JNum 2)]) None) = Inl TypeError"
  by code_simp

section \<open>Canonical order of a composite commitment\<close>

lemma paired_pair: "paired Q (k, c) (k', c') \<longleftrightarrow> k' = k \<and> Q c c'"
  by (simp add: paired_def)

lemma update_paired:
  "list_all2 (paired Q) acc acc' \<Longrightarrow> Q u u' \<Longrightarrow>
     list_all2 (paired Q) (AList.update k u acc) (AList.update k u' acc')"
  by (induction rule: list_all2_induct) (auto simp: paired_pair)

lemma keyBy_paired:
  assumes "list_all2 (paired Q) pairs pairs'"
  shows "list_all2 (paired Q) (keyBy pairs) (keyBy pairs')"
proof -
  have "list_all2 (paired Q) acc acc' \<Longrightarrow>
        list_all2 (paired Q) (foldl (\<lambda>obj (k, u). AList.update k u obj) acc pairs)
          (foldl (\<lambda>obj (k, u). AList.update k u obj) acc' pairs')" for acc acc'
    using assms
  proof (induction arbitrary: acc acc' rule: list_all2_induct)
    case Nil
    then show ?case by simp
  next
    case (Cons p ps p' ps')
    obtain k u where p: "p = (k, u)" by (cases p)
    obtain k' u' where p': "p' = (k', u')" by (cases p')
    have k: "k' = k" and q: "Q u u'"
      using Cons.hyps(1) p p' by (simp_all add: paired_pair)
    have "list_all2 (paired Q) (AList.update k u acc) (AList.update k u' acc')"
      using Cons.prems q by (rule update_paired)
    from Cons.IH [OF this] show ?case
      by (simp add: p p' k)
  qed
  from this [of "[]" "[]"] show ?thesis
    by (simp add: keyBy_def)
qed

lemma salted_committed:
  "list_all2 (paired saltedAlike) xs ys \<Longrightarrow>
     map (\<lambda>(k, c). (k, saltsOf c)) ys = map (\<lambda>(k, c). (k, saltsOf c)) xs \<Longrightarrow>
     list_all2 (paired committedAlike) xs ys"
  by (induction rule: list_all2_induct)
     (auto simp: paired_pair saltedAlike_def committedAlike_def)

lemma committed_map:
  "list_all2 (paired committedAlike) xs ys \<Longrightarrow>
     map (\<lambda>(k, c). (k, getAttestableValue c)) ys = map (\<lambda>(k, c). (k, getAttestableValue c)) xs"
  by (induction rule: list_all2_induct)
     (auto simp: paired_pair committedAlike_def)

lemma paired_keys: "list_all2 (paired Q) xs ys \<Longrightarrow> map fst ys = map fst xs"
  by (induction rule: list_all2_induct) (auto simp: paired_pair)

lemma getAttestableValue_Children:
  assumes "sort (map fst ys) = sort (map fst xs)"
    and "map_of (map (\<lambda>(k, c). (k, getAttestableValue c)) ys)
         = map_of (map (\<lambda>(k, c). (k, getAttestableValue c)) xs)"
  shows "getAttestableValue (UCA ts' i' ident ver t (Children ys) sa)
         = getAttestableValue (UCA ts i ident ver t (Children xs) sa)"
  using assms(1) joinChildren_map_of [OF assms(2), of "sort (map fst xs)"]
  by (simp add: getAttestableValue.simps)

lemma getAttestableValue_committed:
  assumes "list_all2 (paired committedAlike) xs ys"
  shows "getAttestableValue (UCA ts' i' ident ver t (Children ys) sa)
         = getAttestableValue (UCA ts i ident ver t (Children xs) sa)"
proof (rule getAttestableValue_Children)
  show "sort (map fst ys) = sort (map fst xs)"
    using paired_keys [OF assms] by simp
  show "map_of (map (\<lambda>(k, c). (k, getAttestableValue c)) ys)
         = map_of (map (\<lambda>(k, c). (k, getAttestableValue c)) xs)"
    using committed_map [OF assms] by simp
qed

lemma getAttestableValue_Raw:
  "getAttestableValue (UCA ts' i' ident ver t (Raw x) sa) = getAttestableValue (UCA ts i ident ver t (Raw x) sa)"
  by (simp add: getAttestableValue.simps)

lemma constructProperties_keepsResolution:
  assumes "constructProperties e w ps kvs = (rs, w')"
  shows "keepsResolution (definitions w) (definitions w')"
proof -
  let ?Rel = "\<lambda>a b. keepsResolution (definitions a) (definitions b)"
  have frame: "?Rel a b" if "definitions b = definitions a" for a b
    using that by (simp add: keepsResolution_refl)
  have trans: "?Rel a c" if "?Rel a b" and "?Rel b c" for a b c
    using that by (rule keepsResolution_trans)
  have step: "?Rel a b" if "resolveDefinition a i vr = (x, b)" for a i vr x b
    using that by (rule resolveDefinition_keepsResolution)
  show ?thesis
    using world_relation_all(2) [of ?Rel, OF frame trans step assms] .
qed

lemma reconstructProperties_keepsResolution:
  assumes "reconstructProperties e w ps cs acc = (rs, w')"
  shows "keepsResolution (definitions w) (definitions w')"
proof -
  let ?Rel = "\<lambda>a b. keepsResolution (definitions a) (definitions b)"
  have frame: "?Rel a b" if "definitions b = definitions a" for a b
    using that by (simp add: keepsResolution_refl)
  have trans: "?Rel a c" if "?Rel a b" and "?Rel b c" for a b c
    using that by (rule keepsResolution_trans)
  have step: "?Rel a b" if "resolveDefinition a i vr = (x, b)" for a i vr x b
    using that by (rule resolveDefinition_keepsResolution)
  show ?thesis
    using world_relation_all(3) [of ?Rel, OF frame trans step assms] .
qed

lemma resolveDefinition_later:
  assumes "resolveDefinition w ident ver = (Inr (d, vers, t), w1)"
    and "keepsResolution (definitions w) (definitions w')"
  shows "\<exists>w1'. resolveDefinition w' ident ver = (Inr (d, vers, t), w1')"
  using assms(1)
proof (cases rule: resolveDefinition_world)
  case same
  then show ?thesis by simp
next
  case (assigned d0 t0 ct)
  let ?defs = "definitions w" and ?defs' = "definitions w'"
  let ?R = "\<lambda>d d'. d'\<lparr>type := type d\<rparr> = d
        \<and> (\<forall>t. getTypeName ?defs d = Inr t \<longrightarrow> getTypeName ?defs' d' = Inr t)
        \<and> (\<forall>ct. resolveType ?defs d = Inr ct \<longrightarrow> resolveType ?defs' d' = Inr ct)"
  have all: "list_all2 ?R ?defs ?defs'"
    using assms(2) by (simp add: keepsResolution_def)
  have ids: "validIdentifiers ?defs' = validIdentifiers ?defs"
    using assms(2) by (rule keepsResolution_identifiers)
  have "matches ident ver y = matches ident ver x" if "?R x y" for x y
  proof -
    have "matches ident ver (y\<lparr>type := type x\<rparr>) = matches ident ver y"
      by (simp add: matches_def)
    then show ?thesis using that by simp
  qed
  from find_related [OF all this assigned(2)]
  obtain d' where found': "find (matches ident ver) ?defs' = Some d'" and rel: "?R d0 d'"
    by blast
  have tn': "getTypeName ?defs' d' = Inr t0" and rt': "resolveType ?defs' d' = Inr ct"
    using rel assigned(3,4) by simp_all
  have "d'\<lparr>type := type d0\<rparr>\<lparr>type := ct\<rparr> = d0\<lparr>type := ct\<rparr>"
    using rel by simp
  then have same: "d'\<lparr>type := ct\<rparr> = d0\<lparr>type := ct\<rparr>"
    by simp
  have "version (d'\<lparr>type := type d0\<rparr>) = version d'"
    by simp
  then have vers: "version d' = version d0"
    using rel by simp
  have known': "ident \<in> set (validIdentifiers ?defs')"
    using assigned(1) ids by simp
  show ?thesis
    using resolveDefinition_success [OF known' found' tn' rt'] assigned(5) same vers by simp
qed

lemma parsed_nonempty:
  assumes "parseAttestableValue v = Inr parsed"
  shows "\<forall>c \<in> set parsed. stringValue c \<noteq> []"
proof -
  have "parsed = eachSegment (splitPipes v)"
    using assms by (auto simp: parseAttestableValue_def Let_def split: if_splits)
  then have "list_all (\<lambda>c. urnSegment (stringValue c) (propertyName c) (salt c) (valueStr c)) parsed"
    by (simp add: eachSegment_components)
  then show ?thesis
    by (auto simp: list_all_iff urnSegment_def)
qed

lemma same_input_same_commitment:
  "UCABaseConstructor e w ident v ver = (Inr u, w1) \<Longrightarrow>
   UCABaseConstructor e' w' ident v ver = (Inr u', w1') \<Longrightarrow>
   keepsResolution (definitions w1) (definitions w') \<Longrightarrow>
   isAttestableValue v \<or> saltsOf u' = saltsOf u \<Longrightarrow>
   getAttestableValue u' = getAttestableValue u"
  "constructProperties e w ps kvs = (Inr pairs, w1) \<Longrightarrow>
   constructProperties e' w' ps kvs = (Inr pairs', w1') \<Longrightarrow>
   keepsResolution (definitions w1) (definitions w') \<Longrightarrow>
   list_all2 (paired saltedAlike) pairs pairs'"
  "reconstructProperties e w ps cs acc = (Inr res, w1) \<Longrightarrow>
   reconstructProperties e' w' ps cs acc' = (Inr res', w1') \<Longrightarrow>
   keepsResolution (definitions w1) (definitions w') \<Longrightarrow>
   \<forall>c \<in> set cs. stringValue c \<noteq> [] \<Longrightarrow>
   list_all2 (paired committedAlike) acc acc' \<Longrightarrow>
   list_all2 (paired committedAlike) res res'"
proof (induction e w ident v ver and e w ps kvs and e w ps cs acc
    arbitrary: u w1 e' w' u' w1' and pairs w1 e' w' pairs' w1' and res w1 e' w' acc' res' w1'
    rule: UCABaseConstructor_constructProperties_reconstructProperties.induct)
  case (1 e w ident v ver)
  note run1 = "1.prems"(1) and run2 = "1.prems"(2) and later = "1.prems"(3) and alike = "1.prems"(4)
  have "keepsResolution (definitions w) (definitions w1)"
    using run1 by (rule construction_keepsResolution)
  then have kw: "keepsResolution (definitions w) (definitions w')"
    using later by (rule keepsResolution_trans)
  from run1 show ?case
  proof (cases rule: UCABaseConstructor_success)
    case (leaf d vers t wx c)
    from resolveDefinition_later [OF leaf(1) kw]
    obtain wx' where res2: "resolveDefinition w' ident ver = (Inr (d, vers, t), wx')"
      by blast
    have "finish e' wx' ident vers t None (Raw (JStr (valueStr c))) (Some (salt c)) = (Inr u', w1')"
      using run2 res2 leaf(2,3) by (simp add: UCABaseConstructor.simps)
    then show ?thesis
      using leaf(4) getAttestableValue_Raw by (auto dest!: finish_Inr)
  next
    case (rebuilt d vers t wx parsed ucaValue w2)
    from resolveDefinition_later [OF rebuilt(1) kw]
    obtain wx' where res2: "resolveDefinition w' ident ver = (Inr (d, vers, t), wx')"
      by blast
    have "(case reconstructProperties e' wx' (propertiesOf (type d)) parsed [] of
             (Inl err, w2) \<Rightarrow> (Inl err, w2)
           | (Inr ucaValue, w2) \<Rightarrow> finish e' w2 ident vers t None (Children ucaValue) None) = (Inr u', w1')"
      using run2 res2 rebuilt(2,3,4) by (simp add: UCABaseConstructor.simps)
    then obtain ucaValue' w2' where
      rp2: "reconstructProperties e' wx' (propertiesOf (type d)) parsed [] = (Inr ucaValue', w2')"
      and fin2: "finish e' w2' ident vers t None (Children ucaValue') None = (Inr u', w1')"
      by (auto split: prod.splits sum.splits)
    have w2: "w1 = w2"
      using rebuilt(6) by (auto dest!: finish_Inr)
    have "keepsResolution (definitions w') (definitions wx')"
      using res2 by (rule resolveDefinition_keepsResolution)
    then have k: "keepsResolution (definitions w2) (definitions wx')"
      using later w2 keepsResolution_trans by blast
    have "list_all2 (paired committedAlike) ucaValue ucaValue'"
      using "1.IH"(1) [OF rebuilt(1) [symmetric] refl refl refl rebuilt(2,3,4) rebuilt(5) rp2 k
          parsed_nonempty [OF rebuilt(3)]]
      by simp
    then show ?thesis
      using rebuilt(6) fin2 getAttestableValue_committed by (auto dest!: finish_Inr)
  next
    case (raw d vers t wx)
    from resolveDefinition_later [OF raw(1) kw]
    obtain wx' where res2: "resolveDefinition w' ident ver = (Inr (d, vers, t), wx')"
      by blast
    have "finish e' (wx'\<lparr>ticks := Suc (ticks wx'), draws := Suc (draws wx')\<rparr>) ident vers t
             (Some (now e' (ticks wx'))) (Raw v) (Some (sha256hex e' (wordWith e' (draws wx')))) = (Inr u', w1')"
      using run2 UCABaseConstructor_raw [OF res2 raw(2,3,4)] by simp
    then show ?thesis
      using raw(2,5) alike getAttestableValue_Raw by (auto dest!: finish_Inr)
  next
    case (nested d vers t wx kvs pairs w2)
    from resolveDefinition_later [OF nested(1) kw]
    obtain wx' where res2: "resolveDefinition w' ident ver = (Inr (d, vers, t), wx')"
      by blast
    have "(case hasRequireds e' (type d) v of
             Inl err \<Rightarrow> (Inl err, wx')
           | Inr has \<Rightarrow>
               if \<not> has then (Inl (MissingRequiredField ident), wx')
               else
                 (case entriesOf v of
                    Inl err \<Rightarrow> (Inl err, wx')
                  | Inr kvs \<Rightarrow>
                      (case constructProperties e' wx' (propertiesOf (type d)) kvs of
                         (Inl err, w2) \<Rightarrow> (Inl err, w2)
                       | (Inr pairs, w2) \<Rightarrow>
                           finish e' w2 ident vers t None (Children (keyBy pairs)) None))) = (Inr u', w1')"
      using run2 res2 nested(2,3,4) by (simp add: UCABaseConstructor.simps)
    then obtain pairs' w2' where
      cp2: "constructProperties e' wx' (propertiesOf (type d)) kvs = (Inr pairs', w2')"
      and fin2: "finish e' w2' ident vers t None (Children (keyBy pairs')) None = (Inr u', w1')"
      using nested(6) by (auto split: prod.splits sum.splits if_splits)
    have w2: "w1 = w2"
      using nested(8) by (auto dest!: finish_Inr)
    have "keepsResolution (definitions w') (definitions wx')"
      using res2 by (rule resolveDefinition_keepsResolution)
    then have k: "keepsResolution (definitions w2) (definitions wx')"
      using later w2 keepsResolution_trans by blast
    have "list_all2 (paired saltedAlike) pairs pairs'"
      using "1.IH"(2) [OF nested(1) [symmetric] refl refl refl nested(2,3,4,5) _ nested(6,7) cp2 k]
      by simp
    then have all: "list_all2 (paired saltedAlike) (keyBy pairs) (keyBy pairs')"
      by (rule keyBy_paired)
    from nested(8) obtain i where u: "u = UCA None i ident vers t (Children (keyBy pairs)) None"
      by (auto dest!: finish_Inr)
    from fin2 obtain i' where u': "u' = UCA None i' ident vers t (Children (keyBy pairs')) None"
      by (auto dest!: finish_Inr)
    have "saltsOf u' = saltsOf u"
      using alike nested(2) by simp
    then have "map (\<lambda>(k, c). (k, saltsOf c)) (keyBy pairs') = map (\<lambda>(k, c). (k, saltsOf c)) (keyBy pairs)"
      by (simp add: u u')
    with all have "list_all2 (paired committedAlike) (keyBy pairs) (keyBy pairs')"
      by (rule salted_committed)
    then show ?thesis
      unfolding u u' by (rule getAttestableValue_committed)
  qed
next
  case (2 e w ps)
  then show ?case by simp
next
  case (3 e w ps k v rest)
  from "3.prems"(1) obtain p uca wa pairs0 where
    f: "find (\<lambda>p. name p = k) ps = Some p"
    and c: "UCABaseConstructor e w (ptype p) v (pversion p) = (Inr uca, wa)"
    and r: "constructProperties e wa ps rest = (Inr pairs0, w1)"
    and pairs: "pairs = (k, uca) # pairs0"
    by (rule constructProperties_Cons_success)
  from "3.prems"(2) obtain p' uca' wa' pairs0' where
    f': "find (\<lambda>p. name p = k) ps = Some p'"
    and c': "UCABaseConstructor e' w' (ptype p') v (pversion p') = (Inr uca', wa')"
    and r': "constructProperties e' wa' ps rest = (Inr pairs0', w1')"
    and pairs': "pairs' = (k, uca') # pairs0'"
    by (rule constructProperties_Cons_success)
  have p': "p' = p"
    using f f' by simp
  have "keepsResolution (definitions wa) (definitions w1)"
    using r by (rule constructProperties_keepsResolution)
  then have k1: "keepsResolution (definitions wa) (definitions w')"
    using "3.prems"(3) by (rule keepsResolution_trans)
  have "keepsResolution (definitions w') (definitions wa')"
    using c' by (rule construction_keepsResolution)
  then have k2: "keepsResolution (definitions w1) (definitions wa')"
    using "3.prems"(3) keepsResolution_trans by blast
  have "saltedAlike uca uca'"
    using "3.IH"(1) [OF f c c' [unfolded p'] k1] by (auto simp: saltedAlike_def)
  moreover have "list_all2 (paired saltedAlike) pairs0 pairs0'"
    using "3.IH"(2) [OF f c [symmetric] refl r r' k2] .
  ultimately show ?case
    by (simp add: pairs pairs' paired_pair)
next
  case (4 e w ps ucaValue)
  then show ?case by simp
next
  case (5 e w ps c rest ucaValue)
  let ?v = "JObj [(''attestableValue'', JStr (stringValue c))]"
  from "5.prems"(1) obtain p uca wa where
    f: "find (\<lambda>p. endsWith (ptype p) (propertyName c)) ps = Some p"
    and c: "UCABaseConstructor e w (ptype p) ?v None = (Inr uca, wa)"
    and r: "reconstructProperties e wa ps rest (AList.update (propertyName c) uca ucaValue) = (Inr res, w1)"
    by (rule reconstructProperties_Cons_success)
  from "5.prems"(2) obtain p' uca' wa' where
    f': "find (\<lambda>p. endsWith (ptype p) (propertyName c)) ps = Some p'"
    and c': "UCABaseConstructor e' w' (ptype p') ?v None = (Inr uca', wa')"
    and r': "reconstructProperties e' wa' ps rest (AList.update (propertyName c) uca' acc') = (Inr res', w1')"
    by (rule reconstructProperties_Cons_success)
  have p': "p' = p"
    using f f' by simp
  have "keepsResolution (definitions wa) (definitions w1)"
    using r by (rule reconstructProperties_keepsResolution)
  then have k1: "keepsResolution (definitions wa) (definitions w')"
    using "5.prems"(3) by (rule keepsResolution_trans)
  have "keepsResolution (definitions w') (definitions wa')"
    using c' by (rule construction_keepsResolution)
  then have k2: "keepsResolution (definitions w1) (definitions wa')"
    using "5.prems"(3) keepsResolution_trans by blast
  have "isAttestableValue ?v"
    using "5.prems"(4) by (simp add: isAttestableValue_def)
  then have "committedAlike uca uca'"
    using "5.IH"(1) [OF f c c' [unfolded p'] k1] by (simp add: committedAlike_def)
  then have "list_all2 (paired committedAlike) (AList.update (propertyName c) uca ucaValue)
      (AList.update (propertyName c) uca' acc')"
    using "5.prems"(5) update_paired by blast
  then show ?case
    using "5.IH"(2) [OF f c [symmetric] refl r r' k2] "5.prems"(4) by simp
qed


lemma update_fresh: "k \<notin> fst ` set al \<Longrightarrow> AList.update k u al = al @ [(k, u)]"
  by (induction al) auto

lemma keyBy_distinct:
  assumes "distinct (map fst pairs)"
  shows "keyBy pairs = pairs"
proof -
  have "distinct (map fst (acc @ pairs)) \<Longrightarrow>
        foldl (\<lambda>obj (k, u). AList.update k u obj) acc pairs = acc @ pairs" for acc
  proof (induction pairs arbitrary: acc)
    case Nil
    then show ?case by simp
  next
    case (Cons p pairs)
    obtain k u where p: "p = (k, u)" by (cases p)
    have "k \<notin> fst ` set acc"
      using Cons.prems p by auto
    then have "AList.update k u acc = acc @ [(k, u)]"
      by (rule update_fresh)
    moreover have "distinct (map fst ((acc @ [(k, u)]) @ pairs))"
      using Cons.prems p by simp
    ultimately show ?case
      using Cons.IH [of "acc @ [(k, u)]"] p by simp
  qed
  from this [of "[]"] assms show ?thesis
    by (simp add: keyBy_def)
qed

lemma constructProperties_children:
  assumes "constructProperties e w ps kvs = (Inr pairs, w2)"
  shows "map fst pairs = map fst kvs
     \<and> (\<forall>kc \<in> set pairs. \<exists>v p wk wk'.
           (fst kc, v) \<in> set kvs \<and> find (\<lambda>p. name p = fst kc) ps = Some p
           \<and> UCABaseConstructor e wk (ptype p) v (pversion p) = (Inr (snd kc), wk')
           \<and> keepsResolution (definitions w) (definitions wk)
           \<and> keepsResolution (definitions wk') (definitions w2))"
  using assms
proof (induction kvs arbitrary: w pairs)
  case Nil
  then show ?case by simp
next
  case (Cons kv rest)
  obtain k v where kv: "kv = (k, v)" by (cases kv)
  from Cons.prems [unfolded kv] obtain p uca w1 pairs0 where
    f: "find (\<lambda>p. name p = k) ps = Some p"
    and c: "UCABaseConstructor e w (ptype p) v (pversion p) = (Inr uca, w1)"
    and r: "constructProperties e w1 ps rest = (Inr pairs0, w2)"
    and pairs: "pairs = (k, uca) # pairs0"
    by (rule constructProperties_Cons_success)
  have k1: "keepsResolution (definitions w) (definitions w1)"
    using c by (rule construction_keepsResolution)
  have k2: "keepsResolution (definitions w1) (definitions w2)"
    using r by (rule constructProperties_keepsResolution)
  note IH = Cons.IH [OF r]
  have head: "\<exists>v' p' wk wk'.
           (fst (k, uca), v') \<in> set (kv # rest) \<and> find (\<lambda>p. name p = fst (k, uca)) ps = Some p'
           \<and> UCABaseConstructor e wk (ptype p') v' (pversion p') = (Inr (snd (k, uca)), wk')
           \<and> keepsResolution (definitions w) (definitions wk)
           \<and> keepsResolution (definitions wk') (definitions w2)"
    using f c k2 keepsResolution_refl [of "definitions w"] kv by auto
  have tail: "\<exists>v' p' wk wk'.
           (fst kc, v') \<in> set (kv # rest) \<and> find (\<lambda>p. name p = fst kc) ps = Some p'
           \<and> UCABaseConstructor e wk (ptype p') v' (pversion p') = (Inr (snd kc), wk')
           \<and> keepsResolution (definitions w) (definitions wk)
           \<and> keepsResolution (definitions wk') (definitions w2)" if "kc \<in> set pairs0" for kc
  proof -
    from IH that obtain v' p' wk wk' where
      "(fst kc, v') \<in> set rest" "find (\<lambda>p. name p = fst kc) ps = Some p'"
      "UCABaseConstructor e wk (ptype p') v' (pversion p') = (Inr (snd kc), wk')"
      "keepsResolution (definitions w1) (definitions wk)"
      "keepsResolution (definitions wk') (definitions w2)"
      by blast
    moreover from this have "keepsResolution (definitions w) (definitions wk)"
      using k1 keepsResolution_trans by blast
    ultimately show ?thesis
      by auto
  qed
  have "map fst pairs = map fst (kv # rest)"
    using IH pairs kv by simp
  then show ?case
    using head tail pairs by auto
qed

lemma commitment_reads_own_property:
  assumes "map_of kvs' = map_of kvs" and "isAttestableValue (JObj kvs)"
  shows "UCABaseConstructor e w ident (JObj kvs') ver = UCABaseConstructor e w ident (JObj kvs) ver"
proof -
  have att: "isAttestableValue (JObj kvs')"
    using assms by (simp add: isAttestableValue_def)
  have parse: "parseAttestableValue (JObj kvs') = parseAttestableValue (JObj kvs)"
    using assms(1) by (simp add: parseAttestableValue_def splitPipes_def)
  obtain r w1 where res: "resolveDefinition w ident ver = (r, w1)"
    by (cases "resolveDefinition w ident ver")
  show ?thesis
  proof (cases r)
    case (Inl err)
    then show ?thesis
      using res by (simp add: UCABaseConstructor.simps)
  next
    case (Inr dvt)
    obtain d vers t where "dvt = (d, vers, t)" by (cases dvt)
    then show ?thesis
      using res Inr att assms(2) parse by (simp add: UCABaseConstructor.simps)
  qed
qed

lemma nested_construction:
  assumes "UCABaseConstructor e w ident (JObj kvs) ver = (Inr u, w')"
    and "\<not> isAttestableValue (JObj kvs)"
  obtains d vers wx entries pairs i where
    "resolveDefinition w ident ver = (Inr (d, vers, ''Object''), wx)"
    "entriesOf (JObj kvs) = Inr entries"
    "constructProperties e wx (propertiesOf (type d)) entries = (Inr pairs, w')"
    "u = UCA None i ident vers ''Object'' (Children (keyBy pairs)) None"
  using assms(1)
proof (cases rule: UCABaseConstructor_success)
  case (leaf d vers t w1 c)
  then show ?thesis using assms(2) by simp
next
  case (rebuilt d vers t w1 parsed ucaValue w2)
  then show ?thesis using assms(2) by simp
next
  case (raw d vers t w1)
  then show ?thesis by (simp add: isValueOfType_def split: if_splits)
next
  case (nested d vers t wx entries pairs w2)
  from nested(1) have t: "t = ''Object''"
  proof (cases rule: resolveDefinition_world)
    case same
    then show ?thesis by simp
  next
    case (assigned d0 t0 ct)
    then have "type d = ct" and "t0 = t"
      by simp_all
    then have "propertiesOf ct \<noteq> []"
      using nested(4) by simp
    then have "typeNameOf ct = ''Object''"
      by (cases ct) (simp_all add: propertiesOf_def typeNameOf_def)
    moreover have "getTypeName (definitions w) d0 = Inr (typeNameOf ct)"
      using resolveTypeF_typeName [OF assigned(4) [unfolded resolveType_def]] by simp
    ultimately show ?thesis
      using assigned(3) \<open>t0 = t\<close> by simp
  qed
  from nested(8) obtain i where "w' = w2" and "u = UCA None i ident vers t (Children (keyBy pairs)) None"
    by (auto dest!: finish_Inr)
  then show ?thesis
    using that [OF nested(1) [unfolded t] nested(6)] nested(7) t by simp
qed

lemma sorted_keys:
  assumes "distinct (map fst kvs)" and "distinct (map fst kvs')" and "set kvs' = set kvs"
  shows "sort (map fst kvs') = sort (map fst kvs)"
proof (rule sorted_distinct_set_unique)
  show "sorted (sort (map fst kvs'))" and "sorted (sort (map fst kvs))"
    by (rule sorted_sort)+
  show "distinct (sort (map fst kvs'))"
    using assms(2) by (simp only: distinct_sort)
  show "distinct (sort (map fst kvs))"
    using assms(1) by (simp only: distinct_sort)
  show "set (sort (map fst kvs')) = set (sort (map fst kvs))"
    using assms(3) by (simp only: set_sort set_map)
qed

lemma map_of_children: "map_of (map (\<lambda>(k, c). (k, f c)) kvs) k = map_option f (map_of kvs k)"
  by (induction kvs) auto


lemma permuted_constructions:
  assumes first: "UCABaseConstructor e w ident (JObj kvs) ver = (Inr a, wa)"
    and second: "UCABaseConstructor e' w' ident (JObj kvs') ver = (Inr b, wb)"
    and later: "keepsResolution (definitions wa) (definitions w')"
    and keys: "distinct (map fst kvs)" and keys': "distinct (map fst kvs')"
    and permuted: "set kvs' = set kvs"
    and salts: "childSalts b = childSalts a"
  shows "getAttestableValue b = getAttestableValue a"
proof (cases "isAttestableValue (JObj kvs)")
  case True
  have maps: "map_of kvs' = map_of kvs"
    using keys keys' permuted by (simp add: map_of_inject_set)
  have "UCABaseConstructor e' w' ident (JObj kvs) ver = (Inr b, wb)"
    using second commitment_reads_own_property [OF maps True] by simp
  from same_input_same_commitment(1) [OF first this later] True show ?thesis
    by simp
next
  case False
  have maps: "map_of kvs' = map_of kvs"
    using keys keys' permuted by (simp add: map_of_inject_set)
  have False': "\<not> isAttestableValue (JObj kvs')"
    using False maps by (simp add: isAttestableValue_def)
  have len: "arrayLength (JObj kvs') = arrayLength (JObj kvs)"
    using maps by (simp add: arrayLength_def)
  from first False obtain d vers wx entries pairs i where
    res1: "resolveDefinition w ident ver = (Inr (d, vers, ''Object''), wx)"
    and entries: "entriesOf (JObj kvs) = Inr entries"
    and cp1: "constructProperties e wx (propertiesOf (type d)) entries = (Inr pairs, wa)"
    and a: "a = UCA None i ident vers ''Object'' (Children (keyBy pairs)) None"
    by (rule nested_construction)
  from second False' obtain d' vers' wx' entries' pairs' i' where
    res2: "resolveDefinition w' ident ver = (Inr (d', vers', ''Object''), wx')"
    and entries': "entriesOf (JObj kvs') = Inr entries'"
    and cp2: "constructProperties e' wx' (propertiesOf (type d')) entries' = (Inr pairs', wb)"
    and b: "b = UCA None i' ident vers' ''Object'' (Children (keyBy pairs')) None"
    by (rule nested_construction)
  have "keepsResolution (definitions w) (definitions wa)"
    using first by (rule construction_keepsResolution)
  then have "keepsResolution (definitions w) (definitions w')"
    using later by (rule keepsResolution_trans)
  from resolveDefinition_later [OF res1 this] res2 have same: "d' = d" "vers' = vers"
    by auto
  have kx: "keepsResolution (definitions wa) (definitions wx')"
    using later resolveDefinition_keepsResolution [OF res2] by (rule keepsResolution_trans)
  note E1 = constructProperties_children [OF cp1]
  note E2 = constructProperties_children [OF cp2 [unfolded same]]
  show ?thesis
  proof (cases "arrayLength (JObj kvs)")
    case (Some n)
    then have "entries = []" and "entries' = []"
      using entries entries' len by (auto simp: entriesOf_def split: if_splits)
    then have "pairs = []" and "pairs' = []"
      using cp1 cp2 by simp_all
    then show ?thesis
      using a b same Some by (simp add: keyBy_def getAttestableValue.simps)
  next
    case None
    then have ent: "entries = kvs" "entries' = kvs'"
      using entries entries' len by (simp_all add: entriesOf_def)
    have fst1: "map fst pairs = map fst kvs" and fst2: "map fst pairs' = map fst kvs'"
      using E1 E2 ent by simp_all
    have kb1: "keyBy pairs = pairs" and kb2: "keyBy pairs' = pairs'"
      using fst1 fst2 keys keys' by (simp_all add: keyBy_distinct)
    have sorted: "sort (map fst pairs') = sort (map fst pairs)"
      using sorted_keys [OF keys keys' permuted] fst1 fst2 by simp
    have child: "map_of (map (\<lambda>(k, c). (k, getAttestableValue c)) pairs') k
        = map_of (map (\<lambda>(k, c). (k, getAttestableValue c)) pairs) k" for k
    proof (cases "map_of pairs k")
      case none: None
      then have "k \<notin> fst ` set kvs"
        using fst1 by (metis map_of_eq_None_iff set_map)
      then have "k \<notin> fst ` set kvs'"
        using permuted by simp
      then have "map_of pairs' k = None"
        using fst2 by (metis map_of_eq_None_iff set_map)
      then show ?thesis
        using none by (simp add: map_of_children)
    next
      case (Some u)
      then have mem: "(k, u) \<in> set pairs"
        by (rule map_of_SomeD)
      then have "k \<in> fst ` set kvs'"
        using fst1 permuted by (metis fst_conv image_eqI set_map)
      then obtain u' where some': "map_of pairs' k = Some u'"
        using fst2 by (metis map_of_eq_None_iff not_Some_eq set_map)
      then have mem': "(k, u') \<in> set pairs'"
        by (rule map_of_SomeD)
      from E1 mem obtain v p wk wk' where
        v: "(k, v) \<in> set kvs" and p: "find (\<lambda>p. name p = k) (propertiesOf (type d)) = Some p"
        and run: "UCABaseConstructor e wk (ptype p) v (pversion p) = (Inr u, wk')"
        and after: "keepsResolution (definitions wk') (definitions wa)"
        using ent by fastforce
      from E2 mem' obtain v' p' wk2 wk2' where
        v': "(k, v') \<in> set kvs'" and p': "find (\<lambda>p. name p = k) (propertiesOf (type d)) = Some p'"
        and run': "UCABaseConstructor e' wk2 (ptype p') v' (pversion p') = (Inr u', wk2')"
        and before: "keepsResolution (definitions wx') (definitions wk2)"
        using ent by fastforce
      have "v' = v"
        using v v' permuted keys by (metis map_of_is_SomeI option.inject)
      moreover have "p' = p"
        using p p' by simp
      ultimately have run2: "UCABaseConstructor e' wk2 (ptype p) v (pversion p) = (Inr u', wk2')"
        using run' by simp
      have k: "keepsResolution (definitions wk') (definitions wk2)"
        using after kx before keepsResolution_trans by blast
      have "childSalts b k = childSalts a k"
        using salts by simp
      then have "saltsOf u' = saltsOf u"
        using Some some' by (simp add: a b kb1 kb2 childSalts_def map_of_children)
      then have "getAttestableValue u' = getAttestableValue u"
        using same_input_same_commitment(1) [OF run run2 k] by simp
      then show ?thesis
        using Some some' by (simp add: map_of_children)
    qed
    then have "map_of (map (\<lambda>(k, c). (k, getAttestableValue c)) pairs')
        = map_of (map (\<lambda>(k, c). (k, getAttestableValue c)) pairs)"
      by (rule ext)
    with sorted show ?thesis
      unfolding a b same kb1 kb2 by (rule getAttestableValue_Children)
  qed
qed

lemma sorted_children:
  assumes first: "UCABaseConstructor e w ident (JObj kvs) ver = (Inr a, wa)"
    and keys: "distinct (map fst kvs)"
    and plain: "\<not> isAttestableValue (JObj kvs)" and own: "arrayLength (JObj kvs) = None"
  shows "(\<exists>cs. uca_value a = Children cs \<and> map fst cs = map fst kvs)
    \<and> getAttestableValue a
        = Inr (concat (map (\<lambda>k. childCommitment a k @ ''|'') (sort (map fst kvs))))"
proof -
  from first plain obtain d vers wx entries pairs i where
    "resolveDefinition w ident ver = (Inr (d, vers, ''Object''), wx)"
    and entries: "entriesOf (JObj kvs) = Inr entries"
    and cp1: "constructProperties e wx (propertiesOf (type d)) entries = (Inr pairs, wa)"
    and a: "a = UCA None i ident vers ''Object'' (Children (keyBy pairs)) None"
    by (rule nested_construction)
  have ent: "entries = kvs"
    using entries own by (simp add: entriesOf_def)
  note E1 = constructProperties_children [OF cp1]
  have fst1: "map fst pairs = map fst kvs"
    using E1 ent by simp
  have kb1: "keyBy pairs = pairs"
    using fst1 keys by (simp add: keyBy_distinct)
  have commits: "\<exists>s. getAttestableValue (snd kc) = Inr s" if "kc \<in> set pairs" for kc
    using E1 that constructed_commits by blast
  have "map_of (map (\<lambda>(k, c). (k, getAttestableValue c)) pairs) k = Some (Inr (childCommitment a k))"
    if "k \<in> set (sort (map fst kvs))" for k
  proof -
    from that obtain u where u: "map_of pairs k = Some u"
      using fst1 by (metis map_of_eq_None_iff not_Some_eq set_map set_sort)
    then have "(k, u) \<in> set pairs"
      by (rule map_of_SomeD)
    from commits [OF this] obtain s where "getAttestableValue u = Inr s"
      by auto
    then show ?thesis
      using u by (simp add: map_of_children childCommitment_def a kb1)
  qed
  then have "joinChildren (sort (map fst kvs)) (map (\<lambda>(k, c). (k, getAttestableValue c)) pairs)
      = Inr (concat (map (\<lambda>k. childCommitment a k @ ''|'') (sort (map fst kvs))))"
    by (intro joinChildren_all) blast
  then have "getAttestableValue a
      = Inr (concat (map (\<lambda>k. childCommitment a k @ ''|'') (sort (map fst kvs))))"
    unfolding a kb1 by (simp only: getAttestableValue_Object fst1)
  then show ?thesis
    using fst1 a kb1 by simp
qed

text \<open>
  C5. Take a construction from a mapping that returns an instance, and any other
  construction of the same identifier and version from a mapping with the same
  properties, listed in another order. The program runs one of the two after the
  other: the later one starts in the state that the earlier one has left, or in a
  state that came after it, which resolves as that state does. If the other
  construction returns an instance whose children carry, under each key, the salts
  that the children of the first instance carry, the two instances have the same
  commitment. When the mapping is no commitment and not array-like, the instance has
  one child for each key of the mapping, and its commitment is the concatenation of
  the commitments of the children in ascending order of their keys, each followed by
  \<^verbatim>\<open>|\<close>. (The keys of a JavaScript object are distinct.)
\<close>

theorem canonical_ordering:
  assumes first: "UCABaseConstructor e w ident (JObj kvs) ver = (Inr a, wa)"
    and keys: "distinct (map fst kvs)"
  shows "(\<forall>e' w' kvs' b wb.
            UCABaseConstructor e' w' ident (JObj kvs') ver = (Inr b, wb)
            \<and> (keepsResolution (definitions wa) (definitions w')
                 \<or> keepsResolution (definitions wb) (definitions w))
            \<and> distinct (map fst kvs') \<and> set kvs' = set kvs
            \<and> childSalts b = childSalts a
            \<longrightarrow> getAttestableValue b = getAttestableValue a)
    \<and> (\<not> isAttestableValue (JObj kvs) \<and> arrayLength (JObj kvs) = None \<longrightarrow>
         (\<exists>cs. uca_value a = Children cs \<and> map fst cs = map fst kvs)
         \<and> getAttestableValue a
             = Inr (concat (map (\<lambda>k. childCommitment a k @ ''|'') (sort (map fst kvs)))))"
proof -
  have "getAttestableValue b = getAttestableValue a"
    if second: "UCABaseConstructor e' w' ident (JObj kvs') ver = (Inr b, wb)"
      and order: "keepsResolution (definitions wa) (definitions w')
                 \<or> keepsResolution (definitions wb) (definitions w)"
      and keys': "distinct (map fst kvs')" and permuted: "set kvs' = set kvs"
      and salts: "childSalts b = childSalts a"
    for e' w' kvs' b wb
    using order
  proof
    assume "keepsResolution (definitions wa) (definitions w')"
    with first second show ?thesis
      using keys keys' permuted salts by (rule permuted_constructions)
  next
    assume "keepsResolution (definitions wb) (definitions w)"
    with second first have "getAttestableValue a = getAttestableValue b"
      using keys' keys permuted [symmetric] salts [symmetric] by (rule permuted_constructions)
    then show ?thesis
      by simp
  qed
  then show ?thesis
    using sorted_children [OF first keys] by blast
qed

theorem canonical_ordering_witness:
  "fst (UCABaseConstructor demoEnv demoWorld ''ns:Person:name''
          (JObj [(''first'', JStr ''Ann''), (''last'', JStr ''Lee'')]) None) = Inr demoName
   \<and> fst (UCABaseConstructor permutedEnv
          (snd (UCABaseConstructor demoEnv demoWorld ''ns:Person:name''
                  (JObj [(''first'', JStr ''Ann''), (''last'', JStr ''Lee'')]) None))
          ''ns:Person:name'' (JObj [(''last'', JStr ''Lee''), (''first'', JStr ''Ann'')]) None)
       = Inr demoNamePermuted
   \<and> getAttestableValue demoNamePermuted = getAttestableValue demoName
   \<and> getAttestableValue demoName = Inr ''urn:first:1:Ann|urn:last:2:Lee|''"
proof -
  let ?kvs = "[(''first'', JStr ''Ann''), (''last'', JStr ''Lee'')]"
  let ?kvs' = "[(''last'', JStr ''Lee''), (''first'', JStr ''Ann'')]"
  let ?call1 = "UCABaseConstructor demoEnv demoWorld ''ns:Person:name'' (JObj ?kvs) None"
  let ?call2 = "UCABaseConstructor permutedEnv (snd ?call1) ''ns:Person:name'' (JObj ?kvs') None"
  have run1: "fst ?call1 = Inr demoName"
    by code_simp
  have run2: "fst ?call2 = Inr demoNamePermuted"
    by code_simp
  have first: "?call1 = (Inr demoName, snd ?call1)"
    using run1 by (simp add: prod_eq_iff)
  have second: "?call2 = (Inr demoNamePermuted, snd ?call2)"
    using run2 by (simp add: prod_eq_iff)
  have salts: "childSalts demoNamePermuted = childSalts demoName"
    by (auto simp: childSalts_def demoName_def demoNamePermuted_def fun_eq_iff)
  have plain: "\<not> isAttestableValue (JObj ?kvs)"
    by (simp add: isAttestableValue_def)
  have own: "arrayLength (JObj ?kvs) = None"
    by (simp add: arrayLength_def)
  have sorted: "sort [''first'', ''last''] = [''first'', ''last'']"
    by code_simp
  have children: "childCommitment demoName ''first'' = ''urn:first:1:Ann''"
    "childCommitment demoName ''last'' = ''urn:last:2:Lee''"
    by code_simp+
  have keys: "distinct (map fst ?kvs)"
    by simp
  have later: "keepsResolution (definitions (snd ?call1)) (definitions (snd ?call1))"
    by (rule keepsResolution_refl)
  from canonical_ordering [OF first keys]
  have "(UCABaseConstructor permutedEnv (snd ?call1) ''ns:Person:name'' (JObj ?kvs') None
           = (Inr demoNamePermuted, snd ?call2)
         \<and> (keepsResolution (definitions (snd ?call1)) (definitions (snd ?call1))
              \<or> keepsResolution (definitions (snd ?call2)) (definitions demoWorld))
         \<and> distinct (map fst ?kvs') \<and> set ?kvs' = set ?kvs
         \<and> childSalts demoNamePermuted = childSalts demoName
         \<longrightarrow> getAttestableValue demoNamePermuted = getAttestableValue demoName)"
    and "getAttestableValue demoName
          = Inr (concat (map (\<lambda>k. childCommitment demoName k @ ''|'') (sort (map fst ?kvs))))"
    using plain own by blast+
  then have "getAttestableValue demoNamePermuted = getAttestableValue demoName
    \<and> getAttestableValue demoName = Inr ''urn:first:1:Ann|urn:last:2:Lee|''"
    using second later salts sorted children by auto
  then show ?thesis
    using run1 run2 by simp
qed

end
